theory Spec2Isabelle
  imports Main "HOL-Library.Word"
begin

section \<open>The symbol-resolution engine of cpp-dotenv (src/Parser.cpp)\<close>

text \<open>
  \<^verbatim>\<open>dotenv::Parser\<close> keeps a symbols table, a references table and the counter
  \<^verbatim>\<open>unresolved\<close>; the diagnostics sink (\<^verbatim>\<open>errors::\<close>) and the process
  environment (\<^verbatim>\<open>setenv\<close>) are global. The model threads all of them through one
  record. Every member function of \<^verbatim>\<open>Parser.cpp\<close> is translated statement by
  statement. The classes it uses live in headers that are not part of the sources at
  hand: the records and the global collaborators are modelled from the specification,
  each marked as such, and the listeners are a parameter.
\<close>

subsection \<open>Data model\<close>

type_synonym key = string

text \<open>
  Modelled from the spec: the line grammar (LineLexer, LineParser) is missing. A value is
  kept as the scanner's view of it (section 6, \<open>scanOccurrences\<close>): literal text
  interleaved with reference occurrences (payload, line, column) and escape occurrences
  (payload: the literal the escape decodes to).
\<close>

datatype occurrence =
    Text string
  | Reference key nat nat
  | Escape string

type_synonym val = "occurrence list"

datatype origin = Local | External

text \<open>
  Modelled from the spec: class SymbolRecord is missing (section 3): \<open>origin\<close>,
  \<open>value\<close>, \<open>pendingReferences\<close> and the derived predicate \<open>complete\<close>;
  \<^verbatim>\<open>record.local()\<close> of the source reads the origin tag.
\<close>

record SymbolRecord =
  origin :: origin
  rvalue :: val
  pendingReferences :: nat

definition local_record :: "SymbolRecord \<Rightarrow> bool" where
  "local_record r = (origin r = Local)"

definition complete :: "SymbolRecord \<Rightarrow> bool" where
  "complete r = (pendingReferences r = 0)"

text \<open>
  Modelled from the spec: class ReferenceRecord is missing (section 3): the first
  occurrence's line and column; the source reads them with \<^verbatim>\<open>line()\<close> and
  \<^verbatim>\<open>pos()\<close>.
\<close>

record ReferenceRecord =
  line :: nat
  pos :: nat

datatype diagnostic =
    UndefinedVariableError key nat nat
  | CircularReferenceError key nat nat

text \<open>The exception of \<^verbatim>\<open>symbols_table.at(key)\<close> on a key that is not in the table.\<close>

datatype exn = OutOfRange

type_synonym symbols = "(key \<times> SymbolRecord) list"
type_synonym references = "(key \<times> ReferenceRecord) list"

text \<open>
  Both tables are maps iterated in a fixed order: association lists with one entry per
  key. \<open>unresolved\<close> is a \<^verbatim>\<open>size_t\<close>: a 64-bit word, so \<^verbatim>\<open>++\<close> and
  \<^verbatim>\<open>--\<close> wrap. \<open>errors\<close> is the diagnostics sink, \<open>flushed\<close> the batches handed
  to the caller so far, \<open>environ\<close> the process environment and \<open>setenv_calls\<close> the
  trace of the calls of \<^verbatim>\<open>setenv\<close>.
\<close>

record state =
  unresolved :: "64 word"
  symbols_table :: symbols
  references_table :: references
  errors :: "diagnostic list"
  flushed :: "diagnostic list list"
  environ :: "(key \<times> val) list"
  setenv_calls :: "(key \<times> val \<times> bool) list"

text \<open>The state of a freshly constructed \<^verbatim>\<open>Parser\<close> (\<^verbatim>\<open>unresolved(0)\<close>, empty tables).\<close>

definition Parser :: "(key \<times> val) list \<Rightarrow> state" where
  "Parser env = \<lparr>unresolved = 0, symbols_table = [], references_table = [],
     errors = [], flushed = [], environ = env, setenv_calls = []\<rparr>"

text \<open>\<^verbatim>\<open>symbols_table.at(key)\<close>: the record of the key, or the exception.\<close>

definition at :: "symbols \<Rightarrow> key \<Rightarrow> exn + SymbolRecord" where
  "at t k = (case map_of t k of None \<Rightarrow> Inl OutOfRange | Some r \<Rightarrow> Inr r)"

text \<open>
  A listener changes the record it was created for through the reference
  \<^verbatim>\<open>symbols_table.at(key)\<close>: the entry of the key is replaced in place, the order and
  the keys of the table stay.
\<close>

definition set_record :: "key \<Rightarrow> SymbolRecord \<Rightarrow> symbols \<Rightarrow> symbols" where
  "set_record k r t = map (\<lambda>(k', r'). if k' = k then (k', r) else (k', r')) t"

subsection \<open>Collaborators that are not in the sources\<close>

text \<open>
  Modelled from the spec: SymbolsListener and the file grammar are missing (section 4.1,
  \<open>define\<close>): a definition inserts a record; when the key exists already it replaces the
  record if the overwrite policy allows it and is ignored otherwise. A new record has no
  pending reference.
\<close>

definition define_symbol :: "bool \<Rightarrow> symbols \<Rightarrow> key \<times> val \<times> origin \<Rightarrow> symbols" where
  "define_symbol overwrite t d =
     (case d of (k, v, loc) \<Rightarrow>
        let r = \<lparr>origin = loc, rvalue = v, pendingReferences = 0\<rparr> in
        (case map_of t k of
           None \<Rightarrow> t @ [(k, r)]
         | Some old \<Rightarrow> if overwrite then set_record k r t else t))"

text \<open>
  Modelled from the spec: the input stream is taken as what \<open>scanDefinitions\<close> yields for
  it (section 6), a sequence of (key, raw value, locality).
\<close>

type_synonym source = "(key \<times> val \<times> origin) list"

text \<open>
  The four listeners (ReferencesListener, ResolverListener, UnresolvedListener,
  ExpanderListener) and the line grammar they walk are not in the sources. The functions
  of \<^verbatim>\<open>Parser.cpp\<close> take them as a parameter: what the walk of one value does to
  the record the listener was created for. A references walk also reads the symbols table
  and returns the references table it leaves and the diagnostics it reports; the other
  three read the symbols table only.
\<close>

record listeners =
  ReferencesListener ::
    "symbols \<Rightarrow> references \<Rightarrow> SymbolRecord \<Rightarrow> references \<times> diagnostic list \<times> SymbolRecord"
  ResolverListener :: "symbols \<Rightarrow> SymbolRecord \<Rightarrow> SymbolRecord"
  UnresolvedListener :: "symbols \<Rightarrow> SymbolRecord \<Rightarrow> SymbolRecord"
  ExpanderListener :: "symbols \<Rightarrow> SymbolRecord \<Rightarrow> SymbolRecord"

text \<open>
  Modelled from the spec: ReferencesListener is missing (section 4.2). For each reference
  occurrence of the value: a key that is not in the symbols table is reported as undefined
  and the occurrence becomes an empty substitution, not counted; otherwise the owning
  record's \<open>pendingReferences\<close> grows by one and the first occurrence of the key is
  entered into the references table.
\<close>

fun references_walk ::
  "symbols \<Rightarrow> val \<Rightarrow> references \<times> diagnostic list \<times> val \<times> nat
     \<Rightarrow> references \<times> diagnostic list \<times> val \<times> nat" where
  "references_walk t [] acc = acc"
| "references_walk t (Reference k l c # os) (refs, errs, v, n) =
     (case map_of t k of
        None \<Rightarrow> references_walk t os (refs, errs @ [UndefinedVariableError k l c], v, n)
      | Some r \<Rightarrow>
          references_walk t os
            (if map_of refs k = None then refs @ [(k, \<lparr>line = l, pos = c\<rparr>)] else refs,
             errs, v @ [Reference k l c], Suc n))"
| "references_walk t (x # os) (refs, errs, v, n) =
     references_walk t os (refs, errs, v @ [x], n)"

definition spec_references ::
  "symbols \<Rightarrow> references \<Rightarrow> SymbolRecord \<Rightarrow> references \<times> diagnostic list \<times> SymbolRecord" where
  "spec_references t refs r =
     (case references_walk t (rvalue r) (refs, [], [], pendingReferences r) of
        (refs', errs, v, n) \<Rightarrow> (refs', errs, r\<lparr>rvalue := v, pendingReferences := n\<rparr>))"

text \<open>
  Modelled from the spec: the substitution primitive of ResolverListener,
  UnresolvedListener and ExpanderListener is missing (section 4.3). A reference whose
  target is complete is replaced by the target's value; one whose target is incomplete is
  left untouched, or replaced by the empty string under the relaxed rule of the cycle
  breaker (section 4.5); an escape is replaced by its decoded literal. A reference to a
  key without a record is an empty substitution (section 7).
\<close>

fun substitute :: "bool \<Rightarrow> symbols \<Rightarrow> occurrence \<Rightarrow> val" where
  "substitute relaxed t (Reference k l c) =
     (case map_of t k of
        None \<Rightarrow> []
      | Some r \<Rightarrow> if complete r then rvalue r
                  else if relaxed then [] else [Reference k l c])"
| "substitute relaxed t (Escape lit) = [Text lit]"
| "substitute relaxed t (Text x) = [Text x]"

text \<open>The occurrences a strict pass leaves untouched: references to an incomplete target.\<close>

fun untouched :: "symbols \<Rightarrow> occurrence \<Rightarrow> bool" where
  "untouched t (Reference k l c) =
     (case map_of t k of None \<Rightarrow> False | Some r \<Rightarrow> \<not> complete r)"
| "untouched t x = False"

text \<open>
  Modelled from the spec: ResolverListener (section 4.3): after the pass
  \<open>pendingReferences\<close> is recomputed from the occurrences that stayed unresolved, so the
  record is complete exactly when every reference was substituted.
\<close>

definition spec_resolver :: "symbols \<Rightarrow> SymbolRecord \<Rightarrow> SymbolRecord" where
  "spec_resolver t r =
     r\<lparr>rvalue := concat (map (substitute False t) (rvalue r)),
       pendingReferences := length (filter (untouched t) (rvalue r))\<rparr>"

text \<open>
  Modelled from the spec: UnresolvedListener (section 4.5): the relaxed pass, after which
  the record is marked complete.
\<close>

definition spec_unresolved :: "symbols \<Rightarrow> SymbolRecord \<Rightarrow> SymbolRecord" where
  "spec_unresolved t r =
     r\<lparr>rvalue := concat (map (substitute True t) (rvalue r)), pendingReferences := 0\<rparr>"

text \<open>
  Modelled from the spec: ExpanderListener (section 4.6): the primitive restricted to
  escape occurrences.
\<close>

fun expand :: "occurrence \<Rightarrow> occurrence" where
  "expand (Escape lit) = Text lit"
| "expand x = x"

definition spec_expander :: "symbols \<Rightarrow> SymbolRecord \<Rightarrow> SymbolRecord" where
  "spec_expander t r = r\<lparr>rvalue := map expand (rvalue r)\<rparr>"

text \<open>The listeners as the specification describes them.\<close>

definition spec_listeners :: listeners where
  "spec_listeners =
     \<lparr>ReferencesListener = spec_references, ResolverListener = spec_resolver,
      UnresolvedListener = spec_unresolved, ExpanderListener = spec_expander\<rparr>"

text \<open>
  Modelled from the spec: the namespace \<^verbatim>\<open>errors\<close> is missing (sections 6 and 7): an
  ordered, append-only sink, cleared at the start of a call and emitted to the caller as
  one batch by \<open>flush\<close>.
\<close>

definition errors_clear :: "state \<Rightarrow> state" where
  "errors_clear s = s\<lparr>errors := []\<rparr>"

definition circular_reference_error :: "key \<Rightarrow> nat \<Rightarrow> nat \<Rightarrow> state \<Rightarrow> state" where
  "circular_reference_error k l c s = s\<lparr>errors := errors s @ [CircularReferenceError k l c]\<rparr>"

definition errors_flush :: "state \<Rightarrow> state" where
  "errors_flush s = s\<lparr>flushed := flushed s @ [errors s]\<rparr>"

text \<open>
  Modelled from the spec: \<^verbatim>\<open>setenv\<close> of environ.h is missing (section 4.7): the
  variable is set unless \<open>overwrite\<close> is false and it exists already.
\<close>

definition env_set :: "key \<Rightarrow> val \<Rightarrow> bool \<Rightarrow> (key \<times> val) list \<Rightarrow> (key \<times> val) list" where
  "env_set k v overwrite env =
     (if overwrite \<or> map_of env k = None
      then (k, v) # filter (\<lambda>(k', v'). k' \<noteq> k) env
      else env)"

definition setenv :: "key \<Rightarrow> val \<Rightarrow> bool \<Rightarrow> state \<Rightarrow> state" where
  "setenv k v overwrite s =
     s\<lparr>environ := env_set k v overwrite (environ s),
       setenv_calls := setenv_calls s @ [(k, v, overwrite)]\<rparr>"

subsection \<open>The member functions of Parser.cpp\<close>

text \<open>
  \<^verbatim>\<open>parse_dotenv\<close> (lines 56-77): the SymbolsListener walks the definitions and
  fills the symbols table.
\<close>

definition parse_dotenv :: "source \<Rightarrow> bool \<Rightarrow> state \<Rightarrow> state" where
  "parse_dotenv input overwrite s =
     s\<lparr>symbols_table := foldl (define_symbol overwrite) (symbols_table s) input\<rparr>"

text \<open>
  Every loop of the file runs over the entries of the symbols table and reads the record
  again with \<^verbatim>\<open>symbols_table.at(key)\<close>, a reference into the table. The model runs
  over the keys the table has when the loop starts (no listener adds or removes a key)
  and looks the record up in the current table.
\<close>

text \<open>\<^verbatim>\<open>parse_line\<close> (lines 80-105).\<close>

fun parse_line_loop :: "listeners \<Rightarrow> key list \<Rightarrow> state \<Rightarrow> exn + state" where
  "parse_line_loop L [] s = Inr s"
| "parse_line_loop L (k # ks) s =
     (case at (symbols_table s) k of
        Inl e \<Rightarrow> Inl e
      | Inr record \<Rightarrow>
          if local_record record then
            (case ReferencesListener L (symbols_table s) (references_table s) record of
               (refs, reported, record') \<Rightarrow>
                 let s1 = s\<lparr>symbols_table := set_record k record' (symbols_table s),
                            references_table := refs, errors := errors s @ reported\<rparr>
                 in parse_line_loop L ks
                      (if \<not> complete record' then s1\<lparr>unresolved := unresolved s1 + 1\<rparr> else s1))
          else parse_line_loop L ks s)"

definition parse_line :: "listeners \<Rightarrow> state \<Rightarrow> exn + state" where
  "parse_line L s = parse_line_loop L (map fst (symbols_table s)) s"

text \<open>
  The \<^verbatim>\<open>for\<close> loop of \<^verbatim>\<open>resolve_vars\<close> (lines 116-143): one sweep. The
  \<^verbatim>\<open>break\<close> leaves the loop as soon as \<open>unresolved\<close> is 0.
\<close>

fun sweep :: "listeners \<Rightarrow> key list \<Rightarrow> state \<Rightarrow> exn + state" where
  "sweep L [] s = Inr s"
| "sweep L (k # ks) s =
     (case at (symbols_table s) k of
        Inl e \<Rightarrow> Inl e
      | Inr record \<Rightarrow>
          if local_record record \<and> \<not> complete record then
            (let record' = ResolverListener L (symbols_table s) record;
                 s1 = s\<lparr>symbols_table := set_record k record' (symbols_table s)\<rparr>;
                 s2 = (if complete record' then s1\<lparr>unresolved := unresolved s1 - 1\<rparr> else s1)
             in if unresolved s2 = 0 then Inr s2 else sweep L ks s2)
          else sweep L ks s)"

text \<open>\<^verbatim>\<open>report_unresolved_vars\<close> (lines 194-211).\<close>

fun report_loop :: "references \<Rightarrow> state \<Rightarrow> exn + state" where
  "report_loop [] s = Inr s"
| "report_loop ((ref_key, reference_record) # rs) s =
     (case at (symbols_table s) ref_key of
        Inl e \<Rightarrow> Inl e
      | Inr symbol_record \<Rightarrow>
          report_loop rs
            (if \<not> complete symbol_record
             then circular_reference_error ref_key (line reference_record)
                    (pos reference_record) s
             else s))"

definition report_unresolved_vars :: "state \<Rightarrow> exn + state" where
  "report_unresolved_vars s = report_loop (references_table s) s"

text \<open>\<^verbatim>\<open>resolve_unresolved_vars\<close> (lines 214-238).\<close>

fun resolve_unresolved_loop :: "listeners \<Rightarrow> key list \<Rightarrow> state \<Rightarrow> exn + state" where
  "resolve_unresolved_loop L [] s = Inr s"
| "resolve_unresolved_loop L (k # ks) s =
     (case at (symbols_table s) k of
        Inl e \<Rightarrow> Inl e
      | Inr record \<Rightarrow>
          if local_record record \<and> \<not> complete record then
            (let record' = UnresolvedListener L (symbols_table s) record;
                 s1 = s\<lparr>symbols_table := set_record k record' (symbols_table s)\<rparr>
             in resolve_unresolved_loop L ks
                  (if complete record' then s1\<lparr>unresolved := unresolved s1 - 1\<rparr> else s1))
          else resolve_unresolved_loop L ks s)"

definition resolve_unresolved_vars :: "listeners \<Rightarrow> state \<Rightarrow> exn + state" where
  "resolve_unresolved_vars L s = resolve_unresolved_loop L (map fst (symbols_table s)) s"

text \<open>
  The body of the \<^verbatim>\<open>while\<close> loop of \<^verbatim>\<open>resolve_vars\<close> (lines 115-153): a
  sweep, then the cycle breaker (lines 149-153) when the sweep resolved nothing.
\<close>

definition cycle_breaker :: "listeners \<Rightarrow> state \<Rightarrow> exn + state" where
  "cycle_breaker L s =
     (case report_unresolved_vars s of
        Inl e \<Rightarrow> Inl e
      | Inr s' \<Rightarrow> resolve_unresolved_vars L s')"

definition resolve_body :: "listeners \<Rightarrow> state \<Rightarrow> exn + state" where
  "resolve_body L s =
     (let old_unresolved = unresolved s in
      case sweep L (map fst (symbols_table s)) s of
        Inl e \<Rightarrow> Inl e
      | Inr s' \<Rightarrow> if old_unresolved = unresolved s' then cycle_breaker L s' else Inr s')"

text \<open>
  \<^verbatim>\<open>resolve_vars\<close> (lines 108-155). Nothing in the loop bounds the number of its
  rounds, so the model is a partial function: \<open>None\<close> is a loop that never ends.
\<close>

partial_function (option) resolve_vars :: "listeners \<Rightarrow> state \<Rightarrow> (exn + state) option" where
  "resolve_vars L s =
     (if unresolved s > 0 then
        (case resolve_body L s of
           Inl e \<Rightarrow> Some (Inl e)
         | Inr s' \<Rightarrow> resolve_vars L s')
      else Some (Inr s))"

declare resolve_vars.simps [code]

text \<open>\<^verbatim>\<open>expand_escape\<close> (lines 158-175).\<close>

fun expand_escape_loop :: "listeners \<Rightarrow> key list \<Rightarrow> state \<Rightarrow> exn + state" where
  "expand_escape_loop L [] s = Inr s"
| "expand_escape_loop L (k # ks) s =
     (case at (symbols_table s) k of
        Inl e \<Rightarrow> Inl e
      | Inr record \<Rightarrow>
          if local_record record then
            expand_escape_loop L ks
              (s\<lparr>symbols_table :=
                   set_record k (ExpanderListener L (symbols_table s) record) (symbols_table s)\<rparr>)
          else expand_escape_loop L ks s)"

definition expand_escape :: "listeners \<Rightarrow> state \<Rightarrow> exn + state" where
  "expand_escape L s = expand_escape_loop L (map fst (symbols_table s)) s"

text \<open>\<^verbatim>\<open>register_env\<close> (lines 178-191).\<close>

fun register_env_loop :: "key list \<Rightarrow> bool \<Rightarrow> state \<Rightarrow> exn + state" where
  "register_env_loop [] overwrite s = Inr s"
| "register_env_loop (k # ks) overwrite s =
     (case at (symbols_table s) k of
        Inl e \<Rightarrow> Inl e
      | Inr record \<Rightarrow>
          if local_record record then
            register_env_loop ks overwrite (setenv k (rvalue record) overwrite s)
          else register_env_loop ks overwrite s)"

definition register_env :: "bool \<Rightarrow> state \<Rightarrow> exn + state" where
  "register_env overwrite s = register_env_loop (map fst (symbols_table s)) overwrite s"

text \<open>
  \<^verbatim>\<open>parse\<close> (lines 34-53), in three parts: the initialization (lines 37-39), the
  interpolation (lines 46-47, only when \<open>interpolate\<close> is set) and the publication
  (lines 50-52).
\<close>

definition parse_init :: "state \<Rightarrow> state" where
  "parse_init s = errors_clear (s\<lparr>unresolved := 0, symbols_table := []\<rparr>)"

definition interpolation :: "listeners \<Rightarrow> state \<Rightarrow> (exn + state) option" where
  "interpolation L s =
     (case parse_line L s of
        Inl e \<Rightarrow> Some (Inl e)
      | Inr s' \<Rightarrow> resolve_vars L s')"

definition publish :: "listeners \<Rightarrow> bool \<Rightarrow> state \<Rightarrow> exn + state" where
  "publish L overwrite s =
     (case expand_escape L s of
        Inl e \<Rightarrow> Inl e
      | Inr s1 \<Rightarrow>
          (case register_env overwrite s1 of
             Inl e \<Rightarrow> Inl e
           | Inr s2 \<Rightarrow> Inr (errors_flush s2)))"

definition parse :: "listeners \<Rightarrow> source \<Rightarrow> bool \<Rightarrow> bool \<Rightarrow> state \<Rightarrow> (exn + state) option" where
  "parse L input overwrite interpolate s =
     (let s1 = parse_dotenv input overwrite (parse_init s) in
      case (if interpolate then interpolation L s1 else Some (Inr s1)) of
        None \<Rightarrow> None
      | Some (Inl e) \<Rightarrow> Some (Inl e)
      | Some (Inr s2) \<Rightarrow> Some (publish L overwrite s2))"

subsection \<open>Notions used by the statements\<close>

text \<open>The Local records that are not complete yet: what \<open>unresolved\<close> is meant to count.\<close>

definition pending_locals :: "symbols \<Rightarrow> symbols" where
  "pending_locals t = filter (\<lambda>(k, r). local_record r \<and> \<not> complete r) t"

text \<open>
  The invariant of the engine between two statements of \<^verbatim>\<open>resolve_vars\<close>: the
  table is a map (one entry per key) and \<open>unresolved\<close> is the number of incomplete Local
  records.
\<close>

definition engine_inv :: "state \<Rightarrow> bool" where
  "engine_inv s =
     (distinct (map fst (symbols_table s)) \<and>
      unat (unresolved s) = length (pending_locals (symbols_table s)))"

text \<open>
  What the resolution phase may change between two states: only the symbols table, and in
  it only records that are Local and incomplete; the keys, their order and the origin of
  every record stay.
\<close>

definition resolution_frame :: "state \<Rightarrow> state \<Rightarrow> bool" where
  "resolution_frame s s' =
    (map fst (symbols_table s') = map fst (symbols_table s) \<and>
     references_table s' = references_table s \<and>
     flushed s' = flushed s \<and> environ s' = environ s \<and> setenv_calls s' = setenv_calls s \<and>
     (\<forall>k r. map_of (symbols_table s) k = Some r \<longrightarrow>
        (\<exists>r'. map_of (symbols_table s') k = Some r' \<and> origin r' = origin r \<and>
           (\<not> local_record r \<or> complete r \<longrightarrow> r' = r))))"

definition all_locals_complete :: "symbols \<Rightarrow> bool" where
  "all_locals_complete t = (\<forall>(k, r)\<in>set t. local_record r \<longrightarrow> complete r)"

text \<open>
  The diagnostics of section 4.5, in the spec's words: one CircularReferenceError for every
  key of the references table whose symbol record is incomplete, with the line and column
  the references table holds for the key.
\<close>

definition incomplete_at :: "symbols \<Rightarrow> key \<Rightarrow> bool" where
  "incomplete_at t k = (case map_of t k of None \<Rightarrow> False | Some r \<Rightarrow> \<not> complete r)"

definition circular_errors :: "state \<Rightarrow> diagnostic list" where
  "circular_errors s =
     map (\<lambda>(k, r). CircularReferenceError k (line r) (pos r))
       (filter (\<lambda>(k, r). incomplete_at (symbols_table s) k) (references_table s))"

text \<open>Every key of the references table has a record in the symbols table.\<close>

definition references_defined :: "state \<Rightarrow> bool" where
  "references_defined s =
     (set (map fst (references_table s)) \<subseteq> set (map fst (symbols_table s)))"

text \<open>
  The \<^verbatim>\<open>while\<close> loop of \<^verbatim>\<open>resolve_vars\<close> cut off after \<open>n\<close> rounds; a round is
  one sweep, with the cycle breaker when the sweep stalls. \<open>resolve_rounds L n s\<close> for
  \<open>n = 0, 1, \<dots>\<close> are the states at the head of the loop.
\<close>

fun resolve_rounds :: "listeners \<Rightarrow> nat \<Rightarrow> state \<Rightarrow> exn + state" where
  "resolve_rounds L 0 s = Inr s"
| "resolve_rounds L (Suc n) s =
     (if unresolved s > 0 then
        (case resolve_body L s of
           Inl e \<Rightarrow> Inl e
         | Inr s' \<Rightarrow> resolve_rounds L n s')
      else Inr s)"

text \<open>
  What the statements about the resolution ask of the listeners (sections 3 and 4.5 of
  the spec): no walk changes the origin of its record, and the walk of UnresolvedListener
  leaves its record complete.
\<close>

definition resolver_contract :: "listeners \<Rightarrow> bool" where
  "resolver_contract L =
     ((\<forall>t r. origin (ResolverListener L t r) = origin r) \<and>
      (\<forall>t r. origin (UnresolvedListener L t r) = origin r) \<and>
      (\<forall>t r. complete (UnresolvedListener L t r)))"

text \<open>
  And of ReferencesListener (section 4.2): it keeps the origin of its record and enters
  only keys that have a record into the references table.
\<close>

definition references_contract :: "listeners \<Rightarrow> bool" where
  "references_contract L =
     (\<forall>t refs r. case ReferencesListener L t refs r of
        (refs', reported, r') \<Rightarrow>
          origin r' = origin r \<and>
          set (map fst refs') \<subseteq> set (map fst refs) \<union> set (map fst t))"

text \<open>A table as \<^verbatim>\<open>parse_dotenv\<close> leaves it: one entry per key, nothing pending.\<close>

definition fresh_table :: "symbols \<Rightarrow> bool" where
  "fresh_table t = (distinct (map fst t) \<and> (\<forall>(k, r)\<in>set t. complete r))"

text \<open>
  The effect of \<^verbatim>\<open>expand_escape\<close> on a table \<open>t\<close>, for the keys \<open>ks\<close> walked so
  far: the record of a walked Local key is what ExpanderListener made of it, every other
  record is the one of \<open>t\<close>.
\<close>

definition walked :: "listeners \<Rightarrow> key list \<Rightarrow> symbols \<Rightarrow> symbols \<Rightarrow> bool" where
  "walked L ks t t' =
     (map fst t' = map fst t \<and>
      (\<forall>k r. map_of t k = Some r \<longrightarrow>
         (if k \<in> set ks \<and> local_record r
          then \<exists>t''. map_of t' k = Some (ExpanderListener L t'' r)
          else map_of t' k = Some r)))"

text \<open>
  The calls of \<^verbatim>\<open>setenv\<close> section 4.7 asks for: one for each Local record, in table
  order, with its key, its value and the overwrite flag; and the environment after a
  sequence of calls.
\<close>

definition local_calls :: "symbols \<Rightarrow> bool \<Rightarrow> (key \<times> val \<times> bool) list" where
  "local_calls t overwrite =
     map (\<lambda>(k, r). (k, rvalue r, overwrite)) (filter (\<lambda>(k, r). local_record r) t)"

definition env_after :: "(key \<times> val \<times> bool) list \<Rightarrow> (key \<times> val) list \<Rightarrow> (key \<times> val) list" where
  "env_after calls env = foldl (\<lambda>e (k, v, overwrite). env_set k v overwrite e) env calls"

definition calls_for :: "symbols \<Rightarrow> bool \<Rightarrow> key list \<Rightarrow> (key \<times> val \<times> bool) list" where
  "calls_for t overwrite ks =
     concat (map (\<lambda>k. case map_of t k of
                         None \<Rightarrow> []
                       | Some r \<Rightarrow> if local_record r then [(k, rvalue r, overwrite)] else []) ks)"








subsection \<open>Example sources\<close>

text \<open>\<^verbatim>\<open>A=${B}\<close>, \<^verbatim>\<open>B=hello\<close>: a chain without a cycle.\<close>

definition chain_source :: source where
  "chain_source =
     [(''A'', [Reference ''B'' 1 3], Local), (''B'', [Text ''hello''], Local)]"

text \<open>\<^verbatim>\<open>X=${Y}\<close>, \<^verbatim>\<open>Y=${X}\<close>: a cycle.\<close>

definition cycle_source :: source where
  "cycle_source =
     [(''X'', [Reference ''Y'' 1 3], Local), (''Y'', [Reference ''X'' 2 3], Local)]"


definition chain_state :: state where
  "chain_state =
     \<lparr>unresolved = 1,
      symbols_table =
        [(''B'', \<lparr>origin = Local, rvalue = [Text ''hello'', Escape ''!''], pendingReferences = 0\<rparr>),
         (''A'', \<lparr>origin = Local, rvalue = [Reference ''B'' 1 3], pendingReferences = 1\<rparr>),
         (''HOME'', \<lparr>origin = External, rvalue = [Text ''/root'', Escape ''!''], pendingReferences = 0\<rparr>)],
      references_table = [(''B'', \<lparr>line = 1, pos = 3\<rparr>)],
      errors = [], flushed = [],
      environ = [(''HOME'', [Text ''/root'', Escape ''!''])], setenv_calls = []\<rparr>"

text \<open>
  The parser after it has parsed the chain \<^verbatim>\<open>A=${B}\<close>, \<^verbatim>\<open>B=hello\<close>: its
  references table holds \<^verbatim>\<open>B\<close>.
\<close>

definition reused_parser :: state where
  "reused_parser =
     \<lparr>unresolved = 0,
      symbols_table =
        [(''A'', \<lparr>origin = Local, rvalue = [Text ''hello''], pendingReferences = 0\<rparr>),
         (''B'', \<lparr>origin = Local, rvalue = [Text ''hello''], pendingReferences = 0\<rparr>)],
      references_table = [(''B'', \<lparr>line = 1, pos = 3\<rparr>)], errors = [],
      flushed = [[]],
      environ = [(''B'', [Text ''hello'']), (''A'', [Text ''hello''])],
      setenv_calls = [(''A'', [Text ''hello''], True), (''B'', [Text ''hello''], True)]\<rparr>"

text \<open>
  The state of that parser after \<^verbatim>\<open>parse_line\<close> on the cycle \<^verbatim>\<open>X=${Y}\<close>,
  \<^verbatim>\<open>Y=${X}\<close>: the key \<^verbatim>\<open>B\<close> of the call before is still in the references
  table and has no record.
\<close>

definition stalled_state :: state where
  "stalled_state =
     \<lparr>unresolved = 2,
      symbols_table =
        [(''X'', \<lparr>origin = Local, rvalue = [Reference ''Y'' 1 3], pendingReferences = 1\<rparr>),
         (''Y'', \<lparr>origin = Local, rvalue = [Reference ''X'' 2 3], pendingReferences = 1\<rparr>)],
      references_table =
        [(''B'', \<lparr>line = 1, pos = 3\<rparr>), (''Y'', \<lparr>line = 1, pos = 3\<rparr>),
         (''X'', \<lparr>line = 2, pos = 3\<rparr>)],
      errors = [], flushed = [[]],
      environ = [(''B'', [Text ''hello'']), (''A'', [Text ''hello''])],
      setenv_calls = [(''A'', [Text ''hello''], True), (''B'', [Text ''hello''], True)]\<rparr>"

text \<open>
  Two sources for one parser: \<^verbatim>\<open>P=${Q}\<close>, \<^verbatim>\<open>Q=hi\<close>, where \<^verbatim>\<open>Q\<close> is referred
  to at line 1, column 3; then the cycle \<^verbatim>\<open>Q=${R}\<close>, \<^verbatim>\<open>R=${Q}\<close>, where \<^verbatim>\<open>Q\<close>
  is first referred to at line 2, column 3.
\<close>

definition early_source :: source where
  "early_source =
     [(''P'', [Reference ''Q'' 1 3], Local), (''Q'', [Text ''hi''], Local)]"

definition late_source :: source where
  "late_source =
     [(''Q'', [Reference ''R'' 1 3], Local), (''R'', [Reference ''Q'' 2 3], Local)]"

text \<open>
  The cycle followed by \<^verbatim>\<open>E=a\n\<close>, a value with an escape to expand and no
  reference; and the cycle followed by \<^verbatim>\<open>Z=${W}\<close>, a reference to a variable that
  is defined nowhere.
\<close>

definition escape_cycle_source :: source where
  "escape_cycle_source =
     [(''X'', [Reference ''Y'' 1 3], Local), (''Y'', [Reference ''X'' 2 3], Local),
      (''E'', [Text ''a'', Escape ''n''], Local)]"

definition undefined_cycle_source :: source where
  "undefined_cycle_source =
     [(''X'', [Reference ''Y'' 1 3], Local), (''Y'', [Reference ''X'' 2 3], Local),
      (''Z'', [Reference ''W'' 3 3], Local)]"

text \<open>
  The state a new parser reaches on that source when the cycle breaker has forced the
  cycle: the escape of \<^verbatim>\<open>E\<close> is still to expand.
\<close>

definition forced_state :: state where
  "forced_state =
     \<lparr>unresolved = 0,
      symbols_table =
        [(''X'', \<lparr>origin = Local, rvalue = [], pendingReferences = 0\<rparr>),
         (''Y'', \<lparr>origin = Local, rvalue = [], pendingReferences = 0\<rparr>),
         (''E'', \<lparr>origin = Local, rvalue = [Text ''a'', Escape ''n''], pendingReferences = 0\<rparr>)],
      references_table = [(''Y'', \<lparr>line = 1, pos = 3\<rparr>), (''X'', \<lparr>line = 2, pos = 3\<rparr>)],
      errors = [CircularReferenceError ''Y'' 1 3, CircularReferenceError ''X'' 2 3],
      flushed = [], environ = [], setenv_calls = []\<rparr>"

section \<open>Properties\<close>

subsection \<open>Tables\<close>

lemma at_Inr: "at t k = Inr r \<longleftrightarrow> map_of t k = Some r"
  by (simp add: at_def split: option.splits)

lemma in_keys_map_of: "k \<in> set (map fst t) \<Longrightarrow> \<exists>r. map_of t k = Some r"
  by (cases "map_of t k") (auto simp: map_of_eq_None_iff)

lemma map_of_in_keys: "map_of t k = Some r \<Longrightarrow> k \<in> set (map fst t)"
  by (auto dest!: map_of_SomeD intro!: image_eqI [of _ fst "(k, r)"])

lemma keys_set_record: "map fst (set_record k r t) = map fst t"
  by (induction t) (auto simp: set_record_def)

lemma map_of_set_record:
  "map_of (set_record k r t) k' =
     (if k' = k then (case map_of t k of None \<Rightarrow> None | Some old \<Rightarrow> Some r) else map_of t k')"
  by (induction t) (auto simp: set_record_def)

lemma set_record_absent: "k \<notin> fst ` set t \<Longrightarrow> set_record k r t = t"
  by (induction t) (auto simp: set_record_def)

lemma set_set_record: "set (set_record k r t) \<subseteq> insert (k, r) (set t)"
  by (auto simp: set_record_def split: if_splits)

lemma count_set_record:
  "distinct (map fst t) \<Longrightarrow> map_of t k = Some old \<Longrightarrow>
   length (filter P (set_record k r t)) + (if P (k, old) then 1 else 0)
     = length (filter P t) + (if P (k, r) then 1 else 0)"
proof (induction t)
  case Nil
  then show ?case by simp
next
  case (Cons a t)
  obtain k' r' where a: "a = (k', r')" by (cases a)
  show ?case
  proof (cases "k' = k")
    case True
    with Cons.prems a have o: "old = r'" and "k \<notin> fst ` set t" by auto
    then have "set_record k r t = t" by (simp add: set_record_absent)
    moreover have "set_record k r (a # t) = (k, r) # set_record k r t"
      using True a by (simp add: set_record_def)
    ultimately show ?thesis using True a o by simp
  next
    case False
    with Cons a have "length (filter P (set_record k r t)) + (if P (k, old) then 1 else 0)
     = length (filter P t) + (if P (k, r) then 1 else 0)" by simp
    moreover have "set_record k r (a # t) = a # set_record k r t"
      using False a by (simp add: set_record_def)
    ultimately show ?thesis by simp
  qed
qed

lemma pending_set_record:
  assumes "distinct (map fst t)" "map_of t k = Some old"
  shows "length (pending_locals (set_record k r t))
           + (if local_record old \<and> \<not> complete old then 1 else 0)
     = length (pending_locals t) + (if local_record r \<and> \<not> complete r then 1 else 0)"
  using count_set_record [OF assms, of "\<lambda>(k, r). local_record r \<and> \<not> complete r" r]
  by (simp add: pending_locals_def)

lemma pending_pos:
  "map_of t k = Some r \<Longrightarrow> local_record r \<Longrightarrow> \<not> complete r \<Longrightarrow> 0 < length (pending_locals t)"
  by (auto simp: pending_locals_def filter_empty_conv dest!: map_of_SomeD
        intro!: bexI [of _ "(k, r)"])

lemma pending_less_length:
  assumes "map_of t k = Some r" "complete r"
  shows "length (pending_locals t) < length t"
proof -
  have "(k, r) \<in> set t" using assms(1) by (rule map_of_SomeD)
  then show ?thesis unfolding pending_locals_def
    using assms(2) by (intro length_filter_less [of "(k, r)"]) auto
qed

lemma pending_locals_Nil: "pending_locals t = [] \<longleftrightarrow> all_locals_complete t"
  by (auto simp: pending_locals_def all_locals_complete_def filter_empty_conv)


lemma local_record_origin: "origin r' = origin r \<Longrightarrow> local_record r' = local_record r"
  by (simp add: local_record_def)

lemma unat_minus_1: "w \<noteq> 0 \<Longrightarrow> unat (w - 1 :: 64 word) = unat w - 1"
  by (simp add: unat_minus_one)

lemma unat_plus_1: "unat w < n \<Longrightarrow> n < 2 ^ 64 \<Longrightarrow> unat (w + 1 :: 64 word) = unat w + 1"
  by (simp add: unat_add_lem [THEN iffD1])

lemma subset_Un_trans: "A \<subseteq> B \<union> K \<Longrightarrow> B \<subseteq> C \<union> K \<Longrightarrow> A \<subseteq> C \<union> K"
  by blast

subsection \<open>The frame of the resolution\<close>

lemma resolution_frame_refl: "resolution_frame s s"
  by (simp add: resolution_frame_def)

lemma resolution_frame_trans:
  "resolution_frame s s' \<Longrightarrow> resolution_frame s' s'' \<Longrightarrow> resolution_frame s s''"
  unfolding resolution_frame_def local_record_def
  apply (intro conjI; (simp; fail)?)
  by (metis)

lemma resolution_frame_step:
  assumes "map_of (symbols_table s) k = Some rcd" "local_record rcd" "\<not> complete rcd"
    "origin rcd' = origin rcd"
  shows "resolution_frame s (s\<lparr>symbols_table := set_record k rcd' (symbols_table s)\<rparr>)"
  using assms
  by (auto simp: resolution_frame_def keys_set_record map_of_set_record)

lemma frame_unchanged:
  assumes "resolution_frame s s'" "map_of (symbols_table s) k = Some r"
    "\<not> local_record r \<or> complete r"
  shows "map_of (symbols_table s') k = Some r"
  using assms unfolding resolution_frame_def by blast

lemma frame_errors:
  "resolution_frame s s' \<Longrightarrow> resolution_frame (s\<lparr>errors := e\<rparr>) s'"
  by (simp add: resolution_frame_def)

lemma frame_unresolved:
  "resolution_frame s s' \<Longrightarrow> resolution_frame s (s'\<lparr>unresolved := u\<rparr>)"
  by (simp add: resolution_frame_def)

lemma references_defined_frame:
  "resolution_frame s s' \<Longrightarrow> references_defined s' = references_defined s"
  by (simp add: resolution_frame_def references_defined_def)

lemma engine_inv_errors: "engine_inv (s\<lparr>errors := e\<rparr>) = engine_inv s"
  by (simp add: engine_inv_def)

subsection \<open>The sweep\<close>

lemma sweep_inv:
  assumes L: "resolver_contract L"
  shows "engine_inv s \<Longrightarrow> set ks \<subseteq> set (map fst (symbols_table s)) \<Longrightarrow>
   \<exists>s'. sweep L ks s = Inr s' \<and> engine_inv s' \<and>
        unat (unresolved s') \<le> unat (unresolved s) \<and>
        resolution_frame s s' \<and> errors s' = errors s"
proof (induction ks arbitrary: s)
  case Nil
  then show ?case by (simp add: resolution_frame_refl)
next
  case (Cons k ks)
  let ?t = "symbols_table s"
  from Cons.prems(2) obtain rcd where rec: "map_of ?t k = Some rcd"
    using in_keys_map_of [of k ?t] by auto
  then have atk: "at ?t k = Inr rcd" by (simp add: at_Inr)
  show ?case
  proof (cases "local_record rcd \<and> \<not> complete rcd")
    case False
    from Cons.IH [of s] Cons.prems obtain s' where
      "sweep L ks s = Inr s'" "engine_inv s'" "unat (unresolved s') \<le> unat (unresolved s)"
      "resolution_frame s s'" "errors s' = errors s" by auto
    with False atk show ?thesis by auto
  next
    case True
    define rcd' where "rcd' = ResolverListener L ?t rcd"
    define s1 where "s1 = s\<lparr>symbols_table := set_record k rcd' ?t\<rparr>"
    define s2 where "s2 = (if complete rcd' then s1\<lparr>unresolved := unresolved s1 - 1\<rparr> else s1)"
    have d: "distinct (map fst ?t)" and u: "unat (unresolved s) = length (pending_locals ?t)"
      using Cons.prems(1) by (simp_all add: engine_inv_def)
    have org: "origin rcd' = origin rcd"
      using L by (simp add: rcd'_def resolver_contract_def)
    then have loc: "local_record rcd' = local_record rcd" by (rule local_record_origin)
    have cnt: "length (pending_locals (set_record k rcd' ?t)) + 1
       = length (pending_locals ?t) + (if \<not> complete rcd' then 1 else 0)"
      using pending_set_record [OF d rec, of rcd'] True loc by simp
    have "0 < unat (unresolved s)"
      using pending_pos [OF rec] True u by simp
    then have pos: "unresolved s \<noteq> 0"
      by (auto simp: unat_gt_0)
    have inv2: "engine_inv s2"
      using cnt u d pos
      by (auto simp: engine_inv_def s2_def s1_def keys_set_record unat_minus_1)
    have le2: "unat (unresolved s2) \<le> unat (unresolved s)"
      using pos by (auto simp: s2_def s1_def unat_minus_1)
    have "resolution_frame s s1"
      unfolding s1_def using resolution_frame_step [OF rec _ _ org] True by simp
    then have fr2: "resolution_frame s s2"
      by (auto simp: s2_def frame_unresolved)
    have e2: "errors s2 = errors s" by (simp add: s2_def s1_def)
    have keys2: "set ks \<subseteq> set (map fst (symbols_table s2))"
      using Cons.prems(2) fr2 by (simp add: resolution_frame_def)
    have step: "sweep L (k # ks) s = (if unresolved s2 = 0 then Inr s2 else sweep L ks s2)"
      using atk True by (simp add: s2_def s1_def rcd'_def Let_def)
    show ?thesis
    proof (cases "unresolved s2 = 0")
      case True
      with step inv2 le2 fr2 e2 show ?thesis by simp
    next
      case False
      from Cons.IH [OF inv2 keys2] obtain s' where
        "sweep L ks s2 = Inr s'" "engine_inv s'" "unat (unresolved s') \<le> unat (unresolved s2)"
        "resolution_frame s2 s'" "errors s' = errors s2" by auto
      then show ?thesis using step False le2 fr2 e2
        by (auto intro: resolution_frame_trans)
    qed
  qed
qed

lemma sweep_table_inv:
  assumes "resolver_contract L" "engine_inv s"
  shows "\<exists>s'. sweep L (map fst (symbols_table s)) s = Inr s' \<and> engine_inv s' \<and>
          unat (unresolved s') \<le> unat (unresolved s) \<and> resolution_frame s s' \<and>
          errors s' = errors s"
  using sweep_inv [OF assms, of "map fst (symbols_table s)"] by simp

subsection \<open>The cycle breaker\<close>

lemma report_loop_ok:
  "set (map fst refs) \<subseteq> set (map fst (symbols_table s)) \<Longrightarrow>
   report_loop refs s =
     Inr (s\<lparr>errors := errors s @
        map (\<lambda>(k, r). CircularReferenceError k (line r) (pos r))
          (filter (\<lambda>(k, r). incomplete_at (symbols_table s) k) refs)\<rparr>)"
proof (induction refs arbitrary: s)
  case Nil
  then show ?case by simp
next
  case (Cons a refs)
  obtain k r where a: "a = (k, r)" by (cases a)
  with Cons.prems obtain rcd where rcd: "map_of (symbols_table s) k = Some rcd"
    using in_keys_map_of [of k "symbols_table s"] by auto
  then have atk: "at (symbols_table s) k = Inr rcd" by (simp add: at_Inr)
  show ?case
  proof (cases "complete rcd")
    case True
    then show ?thesis using Cons a atk rcd by (simp add: incomplete_at_def)
  next
    case False
    let ?s = "circular_reference_error k (line r) (pos r) s"
    have "symbols_table ?s = symbols_table s" by (simp add: circular_reference_error_def)
    with Cons.IH [of ?s] Cons.prems
    show ?thesis using a atk rcd False
      by (simp add: incomplete_at_def circular_reference_error_def)
  qed
qed

lemma report_loop_fail:
  "\<not> set (map fst refs) \<subseteq> set (map fst (symbols_table s)) \<Longrightarrow>
   report_loop refs s = Inl OutOfRange"
proof (induction refs arbitrary: s)
  case Nil
  then show ?case by simp
next
  case (Cons a refs)
  obtain k r where a: "a = (k, r)" by (cases a)
  show ?case
  proof (cases "map_of (symbols_table s) k")
    case None
    then show ?thesis using a by (simp add: at_def)
  next
    case (Some rcd)
    then have "k \<in> set (map fst (symbols_table s))" by (rule map_of_in_keys)
    with Cons.prems a have nsub: "\<not> set (map fst refs) \<subseteq> set (map fst (symbols_table s))"
      by auto
    let ?s = "if \<not> complete rcd then circular_reference_error k (line r) (pos r) s else s"
    have "symbols_table ?s = symbols_table s" by (simp add: circular_reference_error_def)
    with Cons.IH [of ?s] nsub have "report_loop refs ?s = Inl OutOfRange" by simp
    then show ?thesis using a Some by (simp add: at_def)
  qed
qed

lemma report_unresolved_vars_ok:
  "references_defined s \<Longrightarrow>
   report_unresolved_vars s = Inr (s\<lparr>errors := errors s @ circular_errors s\<rparr>)"
  by (simp add: references_defined_def report_unresolved_vars_def report_loop_ok
        circular_errors_def)

lemma report_unresolved_vars_fail:
  "\<not> references_defined s \<Longrightarrow> report_unresolved_vars s = Inl OutOfRange"
  by (simp add: references_defined_def report_unresolved_vars_def report_loop_fail)

lemma resolve_unresolved_loop_inv:
  assumes L: "resolver_contract L"
  shows "engine_inv s \<Longrightarrow> set ks \<subseteq> set (map fst (symbols_table s)) \<Longrightarrow>
   \<exists>s'. resolve_unresolved_loop L ks s = Inr s' \<and> engine_inv s' \<and>
        unat (unresolved s') \<le> unat (unresolved s) \<and> resolution_frame s s' \<and>
        errors s' = errors s \<and>
        (\<forall>k\<in>set ks. \<forall>r. map_of (symbols_table s') k = Some r \<longrightarrow>
           local_record r \<longrightarrow> complete r)"
proof (induction ks arbitrary: s)
  case Nil
  then show ?case by (simp add: resolution_frame_refl)
next
  case (Cons k ks)
  let ?t = "symbols_table s"
  from Cons.prems(2) obtain rcd where rec: "map_of ?t k = Some rcd"
    using in_keys_map_of [of k ?t] by auto
  then have atk: "at ?t k = Inr rcd" by (simp add: at_Inr)
  show ?case
  proof (cases "local_record rcd \<and> \<not> complete rcd")
    case False
    from Cons.IH [of s] Cons.prems obtain s' where s':
      "resolve_unresolved_loop L ks s = Inr s'" "engine_inv s'"
      "unat (unresolved s') \<le> unat (unresolved s)" "resolution_frame s s'"
      "errors s' = errors s"
      "\<forall>k\<in>set ks. \<forall>r. map_of (symbols_table s') k = Some r \<longrightarrow>
         local_record r \<longrightarrow> complete r"
      by auto
    have "map_of (symbols_table s') k = Some rcd"
      using frame_unchanged [OF s'(4) rec] False by blast
    then have "\<forall>r. map_of (symbols_table s') k = Some r \<longrightarrow> local_record r \<longrightarrow> complete r"
      using False by auto
    with s' False atk show ?thesis by auto
  next
    case True
    define rcd' where "rcd' = UnresolvedListener L ?t rcd"
    define s2 where
      "s2 = s\<lparr>symbols_table := set_record k rcd' ?t, unresolved := unresolved s - 1\<rparr>"
    have d: "distinct (map fst ?t)" and u: "unat (unresolved s) = length (pending_locals ?t)"
      using Cons.prems(1) by (simp_all add: engine_inv_def)
    have org: "origin rcd' = origin rcd" and co: "complete rcd'"
      using L by (simp_all add: rcd'_def resolver_contract_def)
    have loc: "local_record rcd' = local_record rcd" using org by (rule local_record_origin)
    have cnt: "length (pending_locals (set_record k rcd' ?t)) + 1 = length (pending_locals ?t)"
      using pending_set_record [OF d rec, of rcd'] True loc co by simp
    have "0 < unat (unresolved s)"
      using pending_pos [OF rec] True u by simp
    then have pos: "unresolved s \<noteq> 0"
      by (auto simp: unat_gt_0)
    have inv2: "engine_inv s2"
      using cnt u d pos
      by (auto simp: engine_inv_def s2_def keys_set_record unat_minus_1)
    have le2: "unat (unresolved s2) \<le> unat (unresolved s)"
      using pos by (auto simp: s2_def unat_minus_1)
    have "resolution_frame s (s\<lparr>symbols_table := set_record k rcd' ?t\<rparr>)"
      using resolution_frame_step [OF rec _ _ org] True by simp
    then have fr2: "resolution_frame s s2"
      by (auto simp: s2_def resolution_frame_def)
    have keys2: "set ks \<subseteq> set (map fst (symbols_table s2))"
      using Cons.prems(2) fr2 by (simp add: resolution_frame_def)
    have k2: "map_of (symbols_table s2) k = Some rcd'"
      using rec by (simp add: s2_def map_of_set_record)
    have step: "resolve_unresolved_loop L (k # ks) s = resolve_unresolved_loop L ks s2"
      using atk True co by (simp add: s2_def rcd'_def Let_def)
    from Cons.IH [OF inv2 keys2] obtain s' where s':
      "resolve_unresolved_loop L ks s2 = Inr s'" "engine_inv s'"
      "unat (unresolved s') \<le> unat (unresolved s2)" "resolution_frame s2 s'"
      "errors s' = errors s2"
      "\<forall>k\<in>set ks. \<forall>r. map_of (symbols_table s') k = Some r \<longrightarrow>
         local_record r \<longrightarrow> complete r"
      by auto
    have "map_of (symbols_table s') k = Some rcd'"
      using frame_unchanged [OF s'(4) k2] co by blast
    then have "\<forall>r. map_of (symbols_table s') k = Some r \<longrightarrow> local_record r \<longrightarrow> complete r"
      using co by auto
    moreover have "errors s2 = errors s" by (simp add: s2_def)
    ultimately show ?thesis using step s' le2 fr2
      by (auto intro: resolution_frame_trans)
  qed
qed

lemma resolve_unresolved_vars_inv:
  assumes "resolver_contract L" "engine_inv s"
  shows "\<exists>s'. resolve_unresolved_vars L s = Inr s' \<and> engine_inv s' \<and> unresolved s' = 0 \<and>
        resolution_frame s s' \<and> errors s' = errors s \<and>
        all_locals_complete (symbols_table s')"
proof -
  from resolve_unresolved_loop_inv [OF assms, of "map fst (symbols_table s)"]
  obtain s' where s':
      "resolve_unresolved_vars L s = Inr s'" "engine_inv s'"
      "resolution_frame s s'" "errors s' = errors s"
      "\<forall>k\<in>set (map fst (symbols_table s)). \<forall>r. map_of (symbols_table s') k = Some r \<longrightarrow>
         local_record r \<longrightarrow> complete r"
    by (auto simp: resolve_unresolved_vars_def)
  have keys: "map fst (symbols_table s') = map fst (symbols_table s)"
    using s'(3) by (simp add: resolution_frame_def)
  have d: "distinct (map fst (symbols_table s'))" using s'(2) by (simp add: engine_inv_def)
  have "all_locals_complete (symbols_table s')"
    unfolding all_locals_complete_def
  proof clarify
    fix k r assume kr: "(k, r) \<in> set (symbols_table s')" and lr: "local_record r"
    then have m: "map_of (symbols_table s') k = Some r" using d by simp
    then have "k \<in> set (map fst (symbols_table s))"
      using map_of_in_keys [OF m] keys by simp
    then show "complete r" using s'(5) m lr by blast
  qed
  moreover from this have "unat (unresolved s') = 0"
    using s'(2) by (simp add: engine_inv_def pending_locals_Nil [symmetric])
  then have "unresolved s' = 0" by (simp add: unat_eq_0)
  ultimately show ?thesis using s' by auto
qed

lemma cycle_breaker_ok:
  assumes "resolver_contract L" "engine_inv s" "references_defined s"
  shows "\<exists>s'. cycle_breaker L s = Inr s' \<and> engine_inv s' \<and> unresolved s' = 0 \<and>
        resolution_frame s s' \<and> errors s' = errors s @ circular_errors s \<and>
        all_locals_complete (symbols_table s')"
proof -
  let ?s1 = "s\<lparr>errors := errors s @ circular_errors s\<rparr>"
  have r: "report_unresolved_vars s = Inr ?s1"
    using assms(3) by (rule report_unresolved_vars_ok)
  have "engine_inv ?s1" using assms(2) by (simp add: engine_inv_errors)
  from resolve_unresolved_vars_inv [OF assms(1) this] obtain s' where s':
    "resolve_unresolved_vars L ?s1 = Inr s'" "engine_inv s'" "unresolved s' = 0"
    "resolution_frame ?s1 s'" "errors s' = errors ?s1" "all_locals_complete (symbols_table s')"
    by blast
  have "resolution_frame s s'" using s'(4) by (simp add: resolution_frame_def)
  with r s' show ?thesis by (simp add: cycle_breaker_def)
qed

lemma cycle_breaker_fail:
  "\<not> references_defined s \<Longrightarrow> cycle_breaker L s = Inl OutOfRange"
  by (simp add: cycle_breaker_def report_unresolved_vars_fail)

subsection \<open>The loop of resolve_vars\<close>

lemma resolve_body_cases:
  assumes "resolver_contract L" "engine_inv s" "unresolved s \<noteq> 0"
  shows "(resolve_body L s = Inl OutOfRange \<and> \<not> references_defined s) \<or>
         (\<exists>s'. resolve_body L s = Inr s' \<and> engine_inv s' \<and>
            unat (unresolved s') < unat (unresolved s) \<and> resolution_frame s s')"
proof -
  from sweep_table_inv [OF assms(1,2)] obtain s1 where s1:
    "sweep L (map fst (symbols_table s)) s = Inr s1" "engine_inv s1"
    "unat (unresolved s1) \<le> unat (unresolved s)" "resolution_frame s s1"
    by blast
  have b: "resolve_body L s = (if unresolved s = unresolved s1 then cycle_breaker L s1 else Inr s1)"
    using s1(1) by (simp add: resolve_body_def)
  have pos: "0 < unat (unresolved s)" using assms(3) by (simp add: unat_gt_0)
  show ?thesis
  proof (cases "unresolved s = unresolved s1")
    case False
    then have "unat (unresolved s1) \<noteq> unat (unresolved s)" by (simp add: word_unat_eq_iff)
    with s1 b False show ?thesis by auto
  next
    case True
    show ?thesis
    proof (cases "references_defined s1")
      case False
      then have "\<not> references_defined s" using references_defined_frame [OF s1(4)] by simp
      with b True cycle_breaker_fail [OF False] show ?thesis by simp
    next
      case rd: True
      from cycle_breaker_ok [OF assms(1) s1(2) rd] obtain s' where
        "cycle_breaker L s1 = Inr s'" "engine_inv s'" "unresolved s' = 0"
        "resolution_frame s1 s'"
        by blast
      with b True pos s1(4) show ?thesis
        by (auto intro: resolution_frame_trans)
    qed
  qed
qed

lemma resolve_rounds_inv:
  assumes L: "resolver_contract L"
  shows "engine_inv s \<Longrightarrow> resolve_rounds L m s = Inr s' \<Longrightarrow>
    engine_inv s' \<and> unat (unresolved s') \<le> unat (unresolved s) \<and> resolution_frame s s'"
proof (induction m arbitrary: s)
  case 0
  then show ?case by (simp add: resolution_frame_refl)
next
  case (Suc m)
  show ?case
  proof (cases "unresolved s = 0")
    case True
    then show ?thesis using Suc.prems by (simp add: resolution_frame_refl)
  next
    case False
    then have pos: "unresolved s > 0" by (simp add: word_greater_zero_iff)
    from resolve_body_cases [OF L Suc.prems(1) False]
    show ?thesis
    proof
      assume "resolve_body L s = Inl OutOfRange \<and> \<not> references_defined s"
      then show ?thesis using pos Suc.prems(2) by simp
    next
      assume "\<exists>s'. resolve_body L s = Inr s' \<and> engine_inv s' \<and>
            unat (unresolved s') < unat (unresolved s) \<and> resolution_frame s s'"
      then obtain s1 where s1: "resolve_body L s = Inr s1" "engine_inv s1"
        "unat (unresolved s1) < unat (unresolved s)" "resolution_frame s s1" by blast
      then have "resolve_rounds L m s1 = Inr s'" using pos Suc.prems(2) by simp
      from Suc.IH [OF s1(2) this] s1(3,4) show ?thesis
        by (auto intro: resolution_frame_trans)
    qed
  qed
qed

lemma resolve_vars_rounds:
  assumes L: "resolver_contract L"
  shows "engine_inv s \<Longrightarrow> unat (unresolved s) \<le> n \<Longrightarrow>
   resolve_vars L s = Some (resolve_rounds L n s) \<and>
   (\<forall>s'. resolve_rounds L n s = Inr s' \<longrightarrow> unresolved s' = 0)"
proof (induction n arbitrary: s)
  case 0
  then have "unresolved s = 0" by (simp add: unat_eq_0)
  then show ?case by (simp add: resolve_vars.simps)
next
  case (Suc n)
  show ?case
  proof (cases "unresolved s = 0")
    case True
    then show ?thesis by (simp add: resolve_vars.simps)
  next
    case False
    then have pos: "unresolved s > 0" by (simp add: word_greater_zero_iff)
    from resolve_body_cases [OF L Suc.prems(1) False]
    show ?thesis
    proof
      assume "resolve_body L s = Inl OutOfRange \<and> \<not> references_defined s"
      then show ?thesis using pos by (subst resolve_vars.simps) simp
    next
      assume "\<exists>s'. resolve_body L s = Inr s' \<and> engine_inv s' \<and>
            unat (unresolved s') < unat (unresolved s) \<and> resolution_frame s s'"
      then obtain s1 where s1: "resolve_body L s = Inr s1" "engine_inv s1"
        "unat (unresolved s1) < unat (unresolved s)" "resolution_frame s s1" by blast
      then have "unat (unresolved s1) \<le> n" using Suc.prems(2) by simp
      from Suc.IH [OF s1(2) this] have ih:
        "resolve_vars L s1 = Some (resolve_rounds L n s1)"
        "\<forall>s'. resolve_rounds L n s1 = Inr s' \<longrightarrow> unresolved s' = 0" by auto
      have "resolve_vars L s = resolve_vars L s1"
        using pos s1(1) by (subst resolve_vars.simps) simp
      moreover have "resolve_rounds L (Suc n) s = resolve_rounds L n s1"
        using pos s1(1) by simp
      ultimately show ?thesis using ih by simp
    qed
  qed
qed

lemma resolve_rounds_ok:
  assumes L: "resolver_contract L"
  shows "engine_inv s \<Longrightarrow> references_defined s \<Longrightarrow> \<exists>s'. resolve_rounds L n s = Inr s'"
proof (induction n arbitrary: s)
  case 0
  then show ?case by simp
next
  case (Suc n)
  show ?case
  proof (cases "unresolved s = 0")
    case True
    then show ?thesis by simp
  next
    case False
    then have pos: "unresolved s > 0" by (simp add: word_greater_zero_iff)
    from resolve_body_cases [OF L Suc.prems(1) False] Suc.prems(2)
    obtain s1 where s1: "resolve_body L s = Inr s1" "engine_inv s1"
        "resolution_frame s s1" by blast
    have "references_defined s1"
      using references_defined_frame [OF s1(3)] Suc.prems(2) by simp
    from Suc.IH [OF s1(2) this] obtain s' where "resolve_rounds L n s1 = Inr s'" by blast
    then show ?thesis using pos s1(1) by simp
  qed
qed

subsection \<open>The symbols table after parse_dotenv\<close>

lemma define_symbol_fresh:
  assumes "fresh_table t"
  shows "fresh_table (define_symbol overwrite t d)"
proof -
  obtain k v loc where d: "d = (k, v, loc)" by (cases d)
  let ?r = "\<lparr>origin = loc, rvalue = v, pendingReferences = 0\<rparr>"
  have c: "complete ?r" by (simp add: complete_def)
  show ?thesis
  proof (cases "map_of t k")
    case None
    then have "k \<notin> fst ` set t" by (simp add: map_of_eq_None_iff)
    with assms None c d show ?thesis
      by (auto simp: fresh_table_def define_symbol_def)
  next
    case (Some old)
    have "fresh_table (set_record k ?r t)"
      using assms c set_set_record [of k ?r t]
      by (auto simp: fresh_table_def keys_set_record)
    with assms Some d show ?thesis by (simp add: define_symbol_def)
  qed
qed

lemma define_symbol_length: "length (define_symbol overwrite t d) \<le> Suc (length t)"
  by (cases d) (simp add: define_symbol_def set_record_def Let_def split: option.splits)

lemma define_symbol_keys:
  "set (map fst (define_symbol overwrite t d)) = insert (fst d) (set (map fst t))"
proof -
  obtain k v loc where d: "d = (k, v, loc)" by (cases d)
  show ?thesis
  proof (cases "map_of t k")
    case None
    then show ?thesis using d by (simp add: define_symbol_def)
  next
    case (Some old)
    then have "k \<in> set (map fst t)" by (rule map_of_in_keys)
    then show ?thesis using d Some
      by (auto simp: define_symbol_def keys_set_record simp del: set_map)
  qed
qed

lemma foldl_define_fresh:
  "fresh_table t \<Longrightarrow> fresh_table (foldl (define_symbol overwrite) t input)"
  by (induction input arbitrary: t) (simp_all add: define_symbol_fresh)

lemma foldl_define_keys:
  "set (map fst (foldl (define_symbol overwrite) t input))
     = set (map fst t) \<union> set (map fst input)"
proof (induction input arbitrary: t)
  case Nil
  then show ?case by simp
next
  case (Cons d input)
  have "set (map fst (foldl (define_symbol overwrite) (define_symbol overwrite t d) input))
     = set (map fst (define_symbol overwrite t d)) \<union> set (map fst input)"
    by (rule Cons.IH)
  then show ?case by (simp only: foldl_Cons define_symbol_keys) auto
qed

lemma foldl_define_length:
  "length (foldl (define_symbol overwrite) t input) \<le> length t + length input"
proof (induction input arbitrary: t)
  case Nil
  then show ?case by simp
next
  case (Cons d input)
  have "length (foldl (define_symbol overwrite) (define_symbol overwrite t d) input)
      \<le> length (define_symbol overwrite t d) + length input" by (rule Cons.IH)
  also have "\<dots> \<le> Suc (length t) + length input"
    using define_symbol_length [of overwrite t d] by simp
  finally show ?case by simp
qed

lemma pending_locals_fresh: "fresh_table t \<Longrightarrow> pending_locals t = []"
  by (auto simp: fresh_table_def pending_locals_def filter_empty_conv)

lemma fresh_Nil: "fresh_table []"
  by (simp add: fresh_table_def)

lemma parse_dotenv_init:
  "symbols_table (parse_dotenv input overwrite (parse_init s))
     = foldl (define_symbol overwrite) [] input"
  "unresolved (parse_dotenv input overwrite (parse_init s)) = 0"
  "references_table (parse_dotenv input overwrite (parse_init s)) = references_table s"
  "errors (parse_dotenv input overwrite (parse_init s)) = []"
  "flushed (parse_dotenv input overwrite (parse_init s)) = flushed s"
  "environ (parse_dotenv input overwrite (parse_init s)) = environ s"
  "setenv_calls (parse_dotenv input overwrite (parse_init s)) = setenv_calls s"
  by (simp_all add: parse_dotenv_def parse_init_def errors_clear_def)

subsection \<open>The dependency scan\<close>

lemma parse_line_loop_inv:
  assumes L: "references_contract L"
  shows "engine_inv s \<Longrightarrow> distinct ks \<Longrightarrow> set ks \<subseteq> set (map fst (symbols_table s)) \<Longrightarrow>
   (\<forall>k\<in>set ks. \<forall>r. map_of (symbols_table s) k = Some r \<longrightarrow> complete r) \<Longrightarrow>
   length (symbols_table s) < 2 ^ 64 \<Longrightarrow>
   \<exists>s'. parse_line_loop L ks s = Inr s' \<and> engine_inv s' \<and>
        map fst (symbols_table s') = map fst (symbols_table s) \<and>
        flushed s' = flushed s \<and> environ s' = environ s \<and> setenv_calls s' = setenv_calls s \<and>
        set (map fst (references_table s')) \<subseteq>
           set (map fst (references_table s)) \<union> set (map fst (symbols_table s))"
proof (induction ks arbitrary: s)
  case Nil
  then show ?case by simp
next
  case (Cons k ks)
  let ?t = "symbols_table s"
  from Cons.prems(3) obtain rcd where rec: "map_of ?t k = Some rcd"
    using in_keys_map_of [of k ?t] by auto
  then have atk: "at ?t k = Inr rcd" by (simp add: at_Inr)
  have co: "complete rcd" using Cons.prems(4) rec by simp
  show ?case
  proof (cases "local_record rcd")
    case False
    from Cons.IH [of s] Cons.prems obtain s' where
      "parse_line_loop L ks s = Inr s'" "engine_inv s'"
      "map fst (symbols_table s') = map fst (symbols_table s)"
      "flushed s' = flushed s" "environ s' = environ s" "setenv_calls s' = setenv_calls s"
      "set (map fst (references_table s')) \<subseteq>
           set (map fst (references_table s)) \<union> set (map fst (symbols_table s))"
      by auto
    with False atk show ?thesis by auto
  next
    case True
    obtain refs reported rcd' where
      rl: "ReferencesListener L ?t (references_table s) rcd = (refs, reported, rcd')"
      by (cases "ReferencesListener L ?t (references_table s) rcd")
    have "case ReferencesListener L ?t (references_table s) rcd of
        (refs', reported, r') \<Rightarrow>
          origin r' = origin rcd \<and>
          set (map fst refs') \<subseteq> set (map fst (references_table s)) \<union> set (map fst ?t)"
      by (rule L [unfolded references_contract_def, THEN spec, THEN spec, THEN spec])
    with rl have org: "origin rcd' = origin rcd"
      and sub: "set (map fst refs) \<subseteq> set (map fst (references_table s)) \<union> set (map fst ?t)"
      by simp_all
    have loc: "local_record rcd' = local_record rcd" using org by (rule local_record_origin)
    define s1 where "s1 = s\<lparr>symbols_table := set_record k rcd' ?t,
                            references_table := refs, errors := errors s @ reported\<rparr>"
    define s2 where "s2 = (if \<not> complete rcd' then s1\<lparr>unresolved := unresolved s1 + 1\<rparr> else s1)"
    have d: "distinct (map fst ?t)" and u: "unat (unresolved s) = length (pending_locals ?t)"
      using Cons.prems(1) by (simp_all add: engine_inv_def)
    have cnt: "length (pending_locals (set_record k rcd' ?t))
       = length (pending_locals ?t) + (if \<not> complete rcd' then 1 else 0)"
      using pending_set_record [OF d rec, of rcd'] True co loc by simp
    have lt: "unat (unresolved s) < length ?t"
      using pending_less_length [OF rec co] u by simp
    have t2: "symbols_table s2 = set_record k rcd' ?t"
      by (simp add: s2_def s1_def)
    have inv2: "engine_inv s2"
      using cnt u d unat_plus_1 [OF lt Cons.prems(5)]
      by (auto simp: engine_inv_def s2_def s1_def keys_set_record)
    have keys2: "map fst (symbols_table s2) = map fst ?t"
      by (simp add: t2 keys_set_record)
    have c2: "\<forall>k'\<in>set ks. \<forall>r. map_of (symbols_table s2) k' = Some r \<longrightarrow> complete r"
      using Cons.prems(2,4) by (auto simp: t2 map_of_set_record)
    have l2: "length (symbols_table s2) < 2 ^ 64"
      using Cons.prems(5) by (simp add: t2 set_record_def)
    have refs2: "set (map fst (references_table s2)) \<subseteq>
           set (map fst (references_table s)) \<union> set (map fst ?t)"
      using sub by (simp add: s2_def s1_def)
    have other2: "flushed s2 = flushed s" "environ s2 = environ s"
      "setenv_calls s2 = setenv_calls s"
      by (simp_all add: s2_def s1_def)
    have step: "parse_line_loop L (k # ks) s = parse_line_loop L ks s2"
      using atk True rl by (simp add: s2_def s1_def Let_def)
    from Cons.IH [OF inv2 _ _ c2 l2] Cons.prems(2,3) keys2 obtain s' where s':
      "parse_line_loop L ks s2 = Inr s'" "engine_inv s'"
      "map fst (symbols_table s') = map fst (symbols_table s2)"
      "flushed s' = flushed s2" "environ s' = environ s2" "setenv_calls s' = setenv_calls s2"
      "set (map fst (references_table s')) \<subseteq>
           set (map fst (references_table s2)) \<union> set (map fst (symbols_table s2))"
      by auto
    have "set (map fst (references_table s')) \<subseteq>
           set (map fst (references_table s)) \<union> set (map fst ?t)"
      by (rule subset_Un_trans [OF s'(7) [unfolded keys2] refs2])
    with step keys2 other2 s' show ?thesis by simp
  qed
qed

lemma parse_line_inv:
  assumes "references_contract L" "fresh_table (symbols_table s)" "unresolved s = 0"
    "length (symbols_table s) < 2 ^ 64"
  shows "\<exists>s'. parse_line L s = Inr s' \<and> engine_inv s' \<and>
        map fst (symbols_table s') = map fst (symbols_table s) \<and>
        flushed s' = flushed s \<and> environ s' = environ s \<and> setenv_calls s' = setenv_calls s \<and>
        set (map fst (references_table s')) \<subseteq>
           set (map fst (references_table s)) \<union> set (map fst (symbols_table s))"
proof -
  have d: "distinct (map fst (symbols_table s))" using assms(2) by (simp add: fresh_table_def)
  have inv: "engine_inv s"
    using assms(2,3) d by (simp add: engine_inv_def pending_locals_fresh)
  have c: "\<forall>k\<in>set (map fst (symbols_table s)).
             \<forall>r. map_of (symbols_table s) k = Some r \<longrightarrow> complete r"
    using assms(2) by (auto simp: fresh_table_def dest!: map_of_SomeD)
  show ?thesis
    unfolding parse_line_def
    by (rule parse_line_loop_inv [OF assms(1) inv d _ c assms(4)]) simp
qed

subsection \<open>Escape expansion and registration\<close>

lemma walked_Nil: "walked L [] t t"
  by (simp add: walked_def)

lemma expand_escape_loop_walked:
  "distinct (map fst (symbols_table s)) \<Longrightarrow> distinct ks \<Longrightarrow>
   set ks \<subseteq> set (map fst (symbols_table s)) \<Longrightarrow>
   \<exists>t'. expand_escape_loop L ks s = Inr (s\<lparr>symbols_table := t'\<rparr>) \<and>
        walked L ks (symbols_table s) t'"
proof (induction ks arbitrary: s)
  case Nil
  then show ?case by (auto simp: walked_Nil intro!: exI [of _ "symbols_table s"])
next
  case (Cons k ks)
  let ?t = "symbols_table s"
  from Cons.prems(3) obtain rcd where rec: "map_of ?t k = Some rcd"
    using in_keys_map_of [of k ?t] by auto
  then have atk: "at ?t k = Inr rcd" by (simp add: at_Inr)
  have kks: "k \<notin> set ks" using Cons.prems(2) by simp
  show ?case
  proof (cases "local_record rcd")
    case False
    from Cons.IH [of s] Cons.prems obtain t' where t':
      "expand_escape_loop L ks s = Inr (s\<lparr>symbols_table := t'\<rparr>)" "walked L ks ?t t'"
      by auto
    have "walked L (k # ks) ?t t'"
      using t'(2) rec False unfolding walked_def by auto
    with t'(1) atk False show ?thesis by auto
  next
    case True
    define rcd' where "rcd' = ExpanderListener L ?t rcd"
    let ?s1 = "s\<lparr>symbols_table := set_record k rcd' ?t\<rparr>"
    have step: "expand_escape_loop L (k # ks) s = expand_escape_loop L ks ?s1"
      using atk True by (simp add: rcd'_def)
    from Cons.IH [of ?s1] Cons.prems obtain t' where t':
      "expand_escape_loop L ks ?s1 = Inr (?s1\<lparr>symbols_table := t'\<rparr>)"
      "walked L ks (set_record k rcd' ?t) t'"
      by (auto simp: keys_set_record)
    have "walked L (k # ks) ?t t'"
      unfolding walked_def
    proof (intro conjI allI impI)
      show "map fst t' = map fst ?t"
        using t'(2) by (simp add: walked_def keys_set_record)
    next
      fix k' r assume m: "map_of ?t k' = Some r"
      show "if k' \<in> set (k # ks) \<and> local_record r
          then \<exists>t''. map_of t' k' = Some (ExpanderListener L t'' r)
          else map_of t' k' = Some r"
      proof (cases "k' = k")
        case True
        then have r: "r = rcd" using m rec by simp
        have "map_of (set_record k rcd' ?t) k = Some rcd'"
          using rec by (simp add: map_of_set_record)
        with t'(2) kks have "map_of t' k = Some rcd'"
          unfolding walked_def by (metis (full_types))
        then show ?thesis using True r \<open>local_record rcd\<close>
          by (auto simp: rcd'_def)
      next
        case False
        then have "map_of (set_record k rcd' ?t) k' = Some r"
          using m by (simp add: map_of_set_record)
        with t'(2) have "if k' \<in> set ks \<and> local_record r
          then \<exists>t''. map_of t' k' = Some (ExpanderListener L t'' r)
          else map_of t' k' = Some r"
          unfolding walked_def by blast
        then show ?thesis using False by simp
      qed
    qed
    with step t'(1) show ?thesis by auto
  qed
qed

lemma expand_escape_walked:
  assumes "distinct (map fst (symbols_table s))"
  shows "\<exists>t'. expand_escape L s = Inr (s\<lparr>symbols_table := t'\<rparr>) \<and>
        walked L (map fst (symbols_table s)) (symbols_table s) t'"
  unfolding expand_escape_def
  by (rule expand_escape_loop_walked [OF assms assms]) simp

lemma register_env_loop_eq:
  "set ks \<subseteq> set (map fst (symbols_table s)) \<Longrightarrow>
   register_env_loop ks overwrite s =
     Inr (s\<lparr>environ := env_after (calls_for (symbols_table s) overwrite ks) (environ s),
            setenv_calls := setenv_calls s @ calls_for (symbols_table s) overwrite ks\<rparr>)"
proof (induction ks arbitrary: s)
  case Nil
  then show ?case by (simp add: calls_for_def env_after_def)
next
  case (Cons k ks)
  let ?t = "symbols_table s"
  from Cons.prems obtain rcd where rec: "map_of ?t k = Some rcd"
    using in_keys_map_of [of k ?t] by auto
  then have atk: "at ?t k = Inr rcd" by (simp add: at_Inr)
  show ?case
  proof (cases "local_record rcd")
    case False
    then have "calls_for ?t overwrite (k # ks) = calls_for ?t overwrite ks"
      using rec by (simp add: calls_for_def)
    then show ?thesis using Cons atk False by simp
  next
    case True
    let ?s1 = "setenv k (rvalue rcd) overwrite s"
    have t1: "symbols_table ?s1 = ?t" by (simp add: setenv_def)
    have c: "calls_for ?t overwrite (k # ks)
        = (k, rvalue rcd, overwrite) # calls_for ?t overwrite ks"
      using rec True by (simp add: calls_for_def)
    have "register_env_loop (k # ks) overwrite s = register_env_loop ks overwrite ?s1"
      using atk True by simp
    also have "\<dots> = Inr (?s1\<lparr>environ := env_after (calls_for ?t overwrite ks) (environ ?s1),
            setenv_calls := setenv_calls ?s1 @ calls_for ?t overwrite ks\<rparr>)"
      using Cons.IH [of ?s1] Cons.prems by (simp add: t1)
    finally show ?thesis
      by (simp add: c setenv_def env_after_def)
  qed
qed

lemma calls_for_all_aux:
  "(\<forall>(k, r)\<in>set t. map_of T k = Some r) \<Longrightarrow>
   calls_for T overwrite (map fst t) = local_calls t overwrite"
  by (induction t) (auto simp: calls_for_def local_calls_def)

lemma calls_for_all:
  "distinct (map fst t) \<Longrightarrow> calls_for t overwrite (map fst t) = local_calls t overwrite"
  by (rule calls_for_all_aux) auto

lemma register_env_eq:
  "distinct (map fst (symbols_table s)) \<Longrightarrow>
   register_env overwrite s =
     Inr (s\<lparr>environ := env_after (local_calls (symbols_table s) overwrite) (environ s),
            setenv_calls := setenv_calls s @ local_calls (symbols_table s) overwrite\<rparr>)"
  by (simp add: register_env_def register_env_loop_eq calls_for_all)

lemma publish_eq:
  assumes "distinct (map fst (symbols_table s))"
  shows "\<exists>t'. walked L (map fst (symbols_table s)) (symbols_table s) t' \<and>
     expand_escape L s = Inr (s\<lparr>symbols_table := t'\<rparr>) \<and>
     register_env overwrite (s\<lparr>symbols_table := t'\<rparr>) =
       Inr (s\<lparr>symbols_table := t',
              environ := env_after (local_calls t' overwrite) (environ s),
              setenv_calls := setenv_calls s @ local_calls t' overwrite\<rparr>) \<and>
     publish L overwrite s =
       Inr (s\<lparr>symbols_table := t',
              environ := env_after (local_calls t' overwrite) (environ s),
              setenv_calls := setenv_calls s @ local_calls t' overwrite,
              flushed := flushed s @ [errors s]\<rparr>)"
proof -
  from expand_escape_walked [OF assms, of L] obtain t' where t':
    "expand_escape L s = Inr (s\<lparr>symbols_table := t'\<rparr>)"
    "walked L (map fst (symbols_table s)) (symbols_table s) t'" by blast
  have "distinct (map fst t')" using t'(2) assms by (simp add: walked_def)
  then have r: "register_env overwrite (s\<lparr>symbols_table := t'\<rparr>) =
       Inr (s\<lparr>symbols_table := t',
              environ := env_after (local_calls t' overwrite) (environ s),
              setenv_calls := setenv_calls s @ local_calls t' overwrite\<rparr>)"
    by (simp add: register_env_eq)
  show ?thesis
    using t' r by (auto simp: publish_def errors_flush_def intro!: exI [of _ t'])
qed

subsection \<open>The listeners of the specification\<close>

lemma spec_listeners_simps:
  "ReferencesListener spec_listeners = spec_references"
  "ResolverListener spec_listeners = spec_resolver"
  "UnresolvedListener spec_listeners = spec_unresolved"
  "ExpanderListener spec_listeners = spec_expander"
  by (simp_all add: spec_listeners_def)

lemma spec_resolver_contract: "resolver_contract spec_listeners"
  by (simp add: resolver_contract_def spec_listeners_simps spec_resolver_def
        spec_unresolved_def complete_def)

lemma references_walk_keys:
  "references_walk t os (refs, errs, v, n) = (refs', errs', v', n') \<Longrightarrow>
   set (map fst refs') \<subseteq> set (map fst refs) \<union> set (map fst t)"
proof (induction os arbitrary: refs errs v n)
  case Nil
  then show ?case by simp
next
  case (Cons x os)
  show ?case
  proof (cases x)
    case (Text lit)
    with Cons.prems have "references_walk t os (refs, errs, v @ [x], n) = (refs', errs', v', n')"
      by simp
    then show ?thesis by (rule Cons.IH)
  next
    case (Escape lit)
    with Cons.prems have "references_walk t os (refs, errs, v @ [x], n) = (refs', errs', v', n')"
      by simp
    then show ?thesis by (rule Cons.IH)
  next
    case (Reference k l c)
    show ?thesis
    proof (cases "map_of t k")
      case None
      with Cons.prems Reference
      have "references_walk t os (refs, errs @ [UndefinedVariableError k l c], v, n)
          = (refs', errs', v', n')" by simp
      then show ?thesis by (rule Cons.IH)
    next
      case (Some r)
      let ?refs = "if map_of refs k = None then refs @ [(k, \<lparr>line = l, pos = c\<rparr>)] else refs"
      from Cons.prems Reference Some
      have "references_walk t os (?refs, errs, v @ [Reference k l c], Suc n)
          = (refs', errs', v', n')" by simp
      then have "set (map fst refs') \<subseteq> set (map fst ?refs) \<union> set (map fst t)"
        by (rule Cons.IH)
      moreover have "k \<in> set (map fst t)" using Some by (rule map_of_in_keys)
      ultimately show ?thesis by (auto split: if_splits)
    qed
  qed
qed

lemma spec_references_contract: "references_contract spec_listeners"
  unfolding references_contract_def spec_listeners_simps
proof (intro allI)
  fix t :: symbols and refs :: references and r :: SymbolRecord
  obtain refs' errs v n where
    w: "references_walk t (rvalue r) (refs, [], [], pendingReferences r) = (refs', errs, v, n)"
    by (metis prod_cases4)
  from references_walk_keys [OF w]
  show "case spec_references t refs r of
        (refs', reported, r') \<Rightarrow>
          origin r' = origin r \<and>
          set (map fst refs') \<subseteq> set (map fst refs) \<union> set (map fst t)"
    by (simp add: spec_references_def w)
qed

subsection \<open>The lookup of report_unresolved_vars\<close>

text \<open>
  Claim C10. \<^verbatim>\<open>report_unresolved_vars\<close> looks every key of the references table up
  with \<^verbatim>\<open>symbols_table.at\<close>. The lookup is safe exactly under the invariant that every
  key of the references table has a record in the symbols table: under it the call
  returns, having appended the circular-reference diagnostics and nothing else; without it
  the call ends in the exception of \<^verbatim>\<open>at\<close>.
\<close>

theorem report_unresolved_vars_lookup:
  "report_unresolved_vars s =
     (if references_defined s
      then Inr (s\<lparr>errors := errors s @ circular_errors s\<rparr>)
      else Inl OutOfRange)"
proof (cases "references_defined s")
  case True
  then have "set (map fst (references_table s)) \<subseteq> set (map fst (symbols_table s))"
    by (simp add: references_defined_def)
  from report_loop_ok [OF this] True show ?thesis
    by (simp add: report_unresolved_vars_def circular_errors_def)
next
  case False
  then have "\<not> set (map fst (references_table s)) \<subseteq> set (map fst (symbols_table s))"
    by (simp add: references_defined_def)
  from report_loop_fail [OF this] False show ?thesis
    by (simp add: report_unresolved_vars_def)
qed

subsection \<open>The early exit of a sweep\<close>

text \<open>
  Claim C6. A sweep is entered with a positive \<open>unresolved\<close>. If it has brought the count
  to 0 after the keys \<open>ks\<close>, it has stopped there: whatever keys \<open>rest\<close> follow in the
  table, the sweep over all of them ends in the same state, so no later record is walked.
\<close>

theorem sweep_stops_at_zero:
  "unresolved s \<noteq> 0 \<Longrightarrow> sweep L ks s = Inr s' \<Longrightarrow> unresolved s' = 0 \<Longrightarrow>
   sweep L (ks @ rest) s = Inr s'"
proof (induction ks arbitrary: s)
  case Nil
  then show ?case by simp
next
  case (Cons k ks)
  show ?case
  proof (cases "at (symbols_table s) k")
    case (Inl e)
    with Cons.prems(2) show ?thesis by simp
  next
    case (Inr rcd)
    show ?thesis
    proof (cases "local_record rcd \<and> \<not> complete rcd")
      case False
      with Inr Cons.prems have "sweep L ks s = Inr s'" by auto
      from Cons.IH [OF Cons.prems(1) this Cons.prems(3)] Inr False
      show ?thesis by auto
    next
      case True
      define rcd' where "rcd' = ResolverListener L (symbols_table s) rcd"
      define s1 where "s1 = s\<lparr>symbols_table := set_record k rcd' (symbols_table s)\<rparr>"
      define s2 where
        "s2 = (if complete rcd' then s1\<lparr>unresolved := unresolved s1 - 1\<rparr> else s1)"
      have step: "\<And>xs. sweep L (k # xs) s =
          (if unresolved s2 = 0 then Inr s2 else sweep L xs s2)"
        using Inr True by (simp add: s2_def s1_def rcd'_def Let_def)
      show ?thesis
      proof (cases "unresolved s2 = 0")
        case True
        then show ?thesis using step [of ks] step [of "ks @ rest"] Cons.prems(2) by simp
      next
        case False
        with step [of ks] Cons.prems(2) have "sweep L ks s2 = Inr s'" by simp
        from Cons.IH [OF False this Cons.prems(3)]
        show ?thesis using step [of "ks @ rest"] False by simp
      qed
    qed
  qed
qed

theorem sweep_stops_at_zero_witness:
  "unresolved chain_state \<noteq> 0 \<and>
   (\<exists>s'. sweep spec_listeners [''B'', ''A''] chain_state = Inr s' \<and> unresolved s' = 0 \<and>
      sweep spec_listeners ([''B'', ''A''] @ [''HOME'']) chain_state = Inr s')"
proof -
  have pos: "unresolved chain_state \<noteq> 0" by (simp add: chain_state_def)
  obtain s' where s': "sweep spec_listeners [''B'', ''A''] chain_state = Inr s'"
      "unresolved s' = 0"
    by (simp add: chain_state_def at_def local_record_def complete_def set_record_def
          spec_listeners_simps spec_resolver_def Let_def)
  from sweep_stops_at_zero [OF pos s'] pos s' show ?thesis by blast
qed

subsection \<open>Environment registration\<close>

text \<open>
  Claim C8. On a table with one entry per key, \<^verbatim>\<open>register_env\<close> returns and has
  called \<^verbatim>\<open>setenv\<close> exactly for the Local records of the table, in table order, each
  with its key, its value and the overwrite flag (\<open>local_calls\<close>); no call is made for an
  External record, and nothing but the environment changes (the table in particular).
\<close>

theorem register_env_only_locals:
  "distinct (map fst (symbols_table s)) \<Longrightarrow>
   register_env overwrite s =
     Inr (s\<lparr>environ := env_after (local_calls (symbols_table s) overwrite) (environ s),
            setenv_calls := setenv_calls s @ local_calls (symbols_table s) overwrite\<rparr>)"
proof -
  assume d: "distinct (map fst (symbols_table s))"
  have "register_env overwrite s =
     Inr (s\<lparr>environ :=
             env_after (calls_for (symbols_table s) overwrite (map fst (symbols_table s)))
               (environ s),
            setenv_calls :=
              setenv_calls s @ calls_for (symbols_table s) overwrite (map fst (symbols_table s))\<rparr>)"
    unfolding register_env_def by (rule register_env_loop_eq) simp
  then show ?thesis by (simp only: calls_for_all [OF d])
qed

theorem register_env_only_locals_witness:
  "distinct (map fst (symbols_table chain_state)) \<and>
   register_env False chain_state =
     Inr (chain_state\<lparr>
        environ := [(''A'', [Reference ''B'' 1 3]), (''B'', [Text ''hello'', Escape ''!'']),
                    (''HOME'', [Text ''/root'', Escape ''!''])],
        setenv_calls := [(''B'', [Text ''hello'', Escape ''!''], False),
                         (''A'', [Reference ''B'' 1 3], False)]\<rparr>)"
proof -
  have d: "distinct (map fst (symbols_table chain_state))" by (simp add: chain_state_def)
  from register_env_only_locals [OF d, of False] d show ?thesis
    by (simp add: chain_state_def local_calls_def local_record_def env_after_def env_set_def)
qed

subsection \<open>The whole parse\<close>

lemma interpolation_result:
  assumes R: "resolver_contract L" and F: "references_contract L"
    and len: "length input < 2 ^ 64"
  shows "\<exists>s1 n. parse_line L (parse_dotenv input overwrite (parse_init s)) = Inr s1 \<and>
     engine_inv s1 \<and>
     interpolation L (parse_dotenv input overwrite (parse_init s))
       = Some (resolve_rounds L n s1) \<and>
     (\<forall>s'. resolve_rounds L n s1 = Inr s' \<longrightarrow> unresolved s' = 0) \<and>
     flushed s1 = flushed s \<and> environ s1 = environ s \<and> setenv_calls s1 = setenv_calls s \<and>
     set (map fst (symbols_table s1)) = set (map fst input) \<and>
     set (map fst (references_table s1)) \<subseteq>
       set (map fst (references_table s)) \<union> set (map fst input)"
proof -
  let ?s0 = "parse_dotenv input overwrite (parse_init s)"
  note i = parse_dotenv_init [of input overwrite s]
  have fr: "fresh_table (symbols_table ?s0)"
    by (simp add: i foldl_define_fresh fresh_Nil)
  have l: "length (symbols_table ?s0) < 2 ^ 64"
    using foldl_define_length [of overwrite "[]" input] len by (simp add: i)
  have keys0: "set (map fst (symbols_table ?s0)) = set (map fst input)"
    using foldl_define_keys [of overwrite "[]" input] by (simp add: i)
  from parse_line_inv [OF F fr i(2) l] obtain s1 where s1c:
    "parse_line L ?s0 = Inr s1 \<and> engine_inv s1 \<and>
        map fst (symbols_table s1) = map fst (symbols_table ?s0) \<and>
        flushed s1 = flushed ?s0 \<and> environ s1 = environ ?s0 \<and>
        setenv_calls s1 = setenv_calls ?s0 \<and>
        set (map fst (references_table s1)) \<subseteq>
           set (map fst (references_table ?s0)) \<union> set (map fst (symbols_table ?s0))" ..
  note s1 =
    s1c [THEN conjunct1]
    s1c [THEN conjunct2, THEN conjunct1]
    s1c [THEN conjunct2, THEN conjunct2, THEN conjunct1]
    s1c [THEN conjunct2, THEN conjunct2, THEN conjunct2, THEN conjunct1]
    s1c [THEN conjunct2, THEN conjunct2, THEN conjunct2, THEN conjunct2, THEN conjunct1]
    s1c [THEN conjunct2, THEN conjunct2, THEN conjunct2, THEN conjunct2, THEN conjunct2, THEN conjunct1]
    s1c [THEN conjunct2, THEN conjunct2, THEN conjunct2, THEN conjunct2, THEN conjunct2, THEN conjunct2]
  note rv = resolve_vars_rounds [OF R s1(2) order_refl, THEN conjunct1]
    resolve_vars_rounds [OF R s1(2) order_refl, THEN conjunct2]
  have a: "interpolation L ?s0 = Some (resolve_rounds L (unat (unresolved s1)) s1)"
    using s1(1) rv(1) by (simp add: interpolation_def)
  have b: "set (map fst (symbols_table s1)) = set (map fst input)"
    unfolding s1(3) by (rule keys0)
  have c: "set (map fst (references_table s1)) \<subseteq>
       set (map fst (references_table s)) \<union> set (map fst input)"
    using s1(7) unfolding keys0 i(3) .
  have d: "flushed s1 = flushed s" "environ s1 = environ s" "setenv_calls s1 = setenv_calls s"
    using s1(4,5,6) by (simp_all only: i)
  show ?thesis
    by (intro exI [of _ s1] exI [of _ "unat (unresolved s1)"] conjI)
      (rule s1(1) s1(2) a rv(2) d b c)+
qed

text \<open>
  Claim C1. For every source (with fewer definitions than a \<^verbatim>\<open>size_t\<close> counts),
  every pair of flags and every state the parser was left in, a call of \<^verbatim>\<open>parse\<close>
  ends: with a state, or with the exception of \<^verbatim>\<open>at\<close>. The listeners are any that
  keep the origin of their record, with an UnresolvedListener that leaves its record
  complete.
\<close>

theorem parse_terminates:
  assumes "resolver_contract L" "references_contract L" "length input < 2 ^ 64"
  shows "\<exists>r. parse L input overwrite interpolate s = Some r"
proof (cases interpolate)
  case False
  then show ?thesis by (simp add: parse_def)
next
  case True
  from interpolation_result [OF assms, of overwrite s] obtain r where
    "interpolation L (parse_dotenv input overwrite (parse_init s)) = Some r" by blast
  with True show ?thesis by (cases r) (simp_all add: parse_def)
qed

theorem parse_terminates_witness:
  "resolver_contract spec_listeners \<and> references_contract spec_listeners \<and>
   length cycle_source < 2 ^ 64 \<and>
   (\<exists>r. parse spec_listeners cycle_source True True (Parser []) = Some r)"
proof -
  have l: "length cycle_source < 2 ^ 64" by (simp add: cycle_source_def)
  have "\<exists>r. parse spec_listeners cycle_source True True (Parser []) = Some r"
    by (rule parse_terminates [OF spec_resolver_contract spec_references_contract l])
  with spec_resolver_contract spec_references_contract l show ?thesis by simp
qed

text \<open>
  A call that starts with no key in the references table but keys the source defines (a
  new parser has none at all) is not aborted, whatever diagnostics the scan and the
  resolution collect: the resolution returns a state \<open>s2\<close>, \<^verbatim>\<open>expand_escape\<close> and
  \<^verbatim>\<open>register_env\<close> run on it and return, and the diagnostics collected in \<open>s2\<close> are
  handed to the caller as one batch, appended once to what was flushed before.
\<close>

lemma parse_completes_with_diagnostics:
  assumes "resolver_contract L" "references_contract L" "length input < 2 ^ 64"
    and "set (map fst (references_table s)) \<subseteq> set (map fst input)"
  shows "\<exists>s2 s3 s4.
     (if interpolate then interpolation L (parse_dotenv input overwrite (parse_init s))
      else Some (Inr (parse_dotenv input overwrite (parse_init s)))) = Some (Inr s2) \<and>
     expand_escape L s2 = Inr s3 \<and> register_env overwrite s3 = Inr s4 \<and>
     parse L input overwrite interpolate s = Some (Inr (errors_flush s4)) \<and>
     errors (errors_flush s4) = errors s2 \<and>
     flushed (errors_flush s4) = flushed s @ [errors s2]"
proof -
  let ?s0 = "parse_dotenv input overwrite (parse_init s)"
  note i = parse_dotenv_init [of input overwrite s]
  have "\<exists>s2. (if interpolate then interpolation L ?s0 else Some (Inr ?s0)) = Some (Inr s2) \<and>
      distinct (map fst (symbols_table s2)) \<and> flushed s2 = flushed s"
  proof (cases interpolate)
    case False
    have "fresh_table (symbols_table ?s0)" by (simp add: i foldl_define_fresh fresh_Nil)
    then show ?thesis using False by (simp add: i fresh_table_def)
  next
    case True
    from interpolation_result [OF assms(1-3), of overwrite s] obtain s1 n where s1:
      "engine_inv s1" "interpolation L ?s0 = Some (resolve_rounds L n s1)"
      "flushed s1 = flushed s"
      "set (map fst (symbols_table s1)) = set (map fst input)"
      "set (map fst (references_table s1)) \<subseteq>
         set (map fst (references_table s)) \<union> set (map fst input)"
      by blast
    have "references_defined s1"
      using s1(4,5) assms(4) unfolding references_defined_def by blast
    from resolve_rounds_ok [OF assms(1) s1(1) this, of n] obtain s2 where
      s2: "resolve_rounds L n s1 = Inr s2" by blast
    from resolve_rounds_inv [OF assms(1) s1(1) s2]
    have "engine_inv s2" "resolution_frame s1 s2" by simp_all
    then have "distinct (map fst (symbols_table s2))" "flushed s2 = flushed s"
      using s1(3) by (simp_all add: engine_inv_def resolution_frame_def)
    with True s1(2) s2 show ?thesis by simp
  qed
  then obtain s2 where s2:
    "(if interpolate then interpolation L ?s0 else Some (Inr ?s0)) = Some (Inr s2)"
    "distinct (map fst (symbols_table s2))" "flushed s2 = flushed s" by blast
  from publish_eq [OF s2(2), of L overwrite] obtain t' where t':
    "expand_escape L s2 = Inr (s2\<lparr>symbols_table := t'\<rparr>)"
    "register_env overwrite (s2\<lparr>symbols_table := t'\<rparr>) =
       Inr (s2\<lparr>symbols_table := t',
              environ := env_after (local_calls t' overwrite) (environ s2),
              setenv_calls := setenv_calls s2 @ local_calls t' overwrite\<rparr>)"
    by blast
  let ?s4 = "s2\<lparr>symbols_table := t',
              environ := env_after (local_calls t' overwrite) (environ s2),
              setenv_calls := setenv_calls s2 @ local_calls t' overwrite\<rparr>"
  have p: "publish L overwrite s2 = Inr (errors_flush ?s4)"
    using t' by (simp add: publish_def)
  have "parse L input overwrite interpolate s = Some (Inr (errors_flush ?s4))"
    unfolding parse_def Let_def s2(1) using p by simp
  moreover have "errors (errors_flush ?s4) = errors s2"
    "flushed (errors_flush ?s4) = flushed s @ [errors s2]"
    using s2(3) by (simp_all add: errors_flush_def)
  ultimately show ?thesis using s2(1) t' by blast
qed

text \<open>
  Claim C5. With \<open>interpolate\<close> false the parse goes from \<^verbatim>\<open>parse_dotenv\<close> straight to
  the publication: it returns a state whose references table is the one it started with,
  whose diagnostics sink is empty (one empty batch is flushed) and whose counter is 0;
  the table is the one of \<^verbatim>\<open>parse_dotenv\<close>, raw values, with the Local records
  walked by ExpanderListener, and \<^verbatim>\<open>setenv\<close> was called for its Local records.
\<close>

theorem parse_without_interpolation:
  "\<exists>s'. parse L input overwrite False s = Some (Inr s') \<and>
     references_table s' = references_table s \<and>
     errors s' = [] \<and> flushed s' = flushed s @ [[]] \<and> unresolved s' = 0 \<and>
     walked L (map fst (foldl (define_symbol overwrite) [] input))
       (foldl (define_symbol overwrite) [] input) (symbols_table s') \<and>
     setenv_calls s' = setenv_calls s @ local_calls (symbols_table s') overwrite \<and>
     environ s' = env_after (local_calls (symbols_table s') overwrite) (environ s)"
proof -
  let ?s0 = "parse_dotenv input overwrite (parse_init s)"
  note i = parse_dotenv_init [of input overwrite s]
  have "fresh_table (symbols_table ?s0)" by (simp add: i foldl_define_fresh fresh_Nil)
  then have d: "distinct (map fst (symbols_table ?s0))" by (simp add: fresh_table_def)
  from publish_eq [OF d, of L overwrite] obtain t' where t':
    "walked L (map fst (symbols_table ?s0)) (symbols_table ?s0) t' \<and>
     expand_escape L ?s0 = Inr (?s0\<lparr>symbols_table := t'\<rparr>) \<and>
     register_env overwrite (?s0\<lparr>symbols_table := t'\<rparr>) =
       Inr (?s0\<lparr>symbols_table := t',
              environ := env_after (local_calls t' overwrite) (environ ?s0),
              setenv_calls := setenv_calls ?s0 @ local_calls t' overwrite\<rparr>) \<and>
     publish L overwrite ?s0 =
       Inr (?s0\<lparr>symbols_table := t',
              environ := env_after (local_calls t' overwrite) (environ ?s0),
              setenv_calls := setenv_calls ?s0 @ local_calls t' overwrite,
              flushed := flushed ?s0 @ [errors ?s0]\<rparr>)" ..
  let ?s' = "?s0\<lparr>symbols_table := t',
              environ := env_after (local_calls t' overwrite) (environ ?s0),
              setenv_calls := setenv_calls ?s0 @ local_calls t' overwrite,
              flushed := flushed ?s0 @ [errors ?s0]\<rparr>"
  have p: "parse L input overwrite False s = Some (Inr ?s')"
    using t' [THEN conjunct2, THEN conjunct2, THEN conjunct2] by (simp add: parse_def)
  have w: "walked L (map fst (foldl (define_symbol overwrite) [] input))
       (foldl (define_symbol overwrite) [] input) (symbols_table ?s')"
    using t' [THEN conjunct1] unfolding i(1) by simp
  have r: "references_table ?s' = references_table s" "errors ?s' = []"
    "flushed ?s' = flushed s @ [[]]" "unresolved ?s' = 0"
    "setenv_calls ?s' = setenv_calls s @ local_calls (symbols_table ?s') overwrite"
    "environ ?s' = env_after (local_calls (symbols_table ?s') overwrite) (environ s)"
    by (simp_all add: i)
  show ?thesis
    by (intro exI [of _ ?s'] conjI) (rule p w r)+
qed

theorem parse_without_interpolation_witness:
  "\<exists>s'. parse spec_listeners chain_source True False (Parser []) = Some (Inr s') \<and>
     references_table s' = [] \<and> errors s' = [] \<and> flushed s' = [[]] \<and> unresolved s' = 0 \<and>
     symbols_table s' =
       [(''A'', \<lparr>origin = Local, rvalue = [Reference ''B'' 1 3], pendingReferences = 0\<rparr>),
        (''B'', \<lparr>origin = Local, rvalue = [Text ''hello''], pendingReferences = 0\<rparr>)] \<and>
     setenv_calls s' = [(''A'', [Reference ''B'' 1 3], True), (''B'', [Text ''hello''], True)]"
proof -
  from parse_without_interpolation [of spec_listeners chain_source True "Parser []"]
  obtain s' where s':
    "parse spec_listeners chain_source True False (Parser []) = Some (Inr s') \<and>
     references_table s' = references_table (Parser []) \<and>
     errors s' = [] \<and> flushed s' = flushed (Parser []) @ [[]] \<and> unresolved s' = 0 \<and>
     walked spec_listeners (map fst (foldl (define_symbol True) [] chain_source))
       (foldl (define_symbol True) [] chain_source) (symbols_table s') \<and>
     setenv_calls s' = setenv_calls (Parser []) @ local_calls (symbols_table s') True \<and>
     environ s' = env_after (local_calls (symbols_table s') True) (environ (Parser []))" ..
  have e: "parse spec_listeners chain_source True False (Parser []) =
     Some (Inr \<lparr>unresolved = 0,
       symbols_table =
         [(''A'', \<lparr>origin = Local, rvalue = [Reference ''B'' 1 3], pendingReferences = 0\<rparr>),
          (''B'', \<lparr>origin = Local, rvalue = [Text ''hello''], pendingReferences = 0\<rparr>)],
       references_table = [], errors = [], flushed = [[]],
       environ = [(''B'', [Text ''hello'']), (''A'', [Reference ''B'' 1 3])],
       setenv_calls = [(''A'', [Reference ''B'' 1 3], True), (''B'', [Text ''hello''], True)]\<rparr>)"
    by (simp add: parse_def parse_dotenv_def parse_init_def errors_clear_def Parser_def
          chain_source_def define_symbol_def publish_def expand_escape_def register_env_def
          at_def local_record_def set_record_def spec_listeners_simps spec_expander_def
          setenv_def env_set_def errors_flush_def)
  from s' [THEN conjunct1] have "s' =
       \<lparr>unresolved = 0,
       symbols_table =
         [(''A'', \<lparr>origin = Local, rvalue = [Reference ''B'' 1 3], pendingReferences = 0\<rparr>),
          (''B'', \<lparr>origin = Local, rvalue = [Text ''hello''], pendingReferences = 0\<rparr>)],
       references_table = [], errors = [], flushed = [[]],
       environ = [(''B'', [Text ''hello'']), (''A'', [Reference ''B'' 1 3])],
       setenv_calls = [(''A'', [Reference ''B'' 1 3], True), (''B'', [Text ''hello''], True)]\<rparr>"
    unfolding e by simp
  then have v: "references_table s' = [] \<and> errors s' = [] \<and> flushed s' = [[]] \<and>
     unresolved s' = 0 \<and>
     symbols_table s' =
       [(''A'', \<lparr>origin = Local, rvalue = [Reference ''B'' 1 3], pendingReferences = 0\<rparr>),
        (''B'', \<lparr>origin = Local, rvalue = [Text ''hello''], pendingReferences = 0\<rparr>)] \<and>
     setenv_calls s' = [(''A'', [Reference ''B'' 1 3], True), (''B'', [Text ''hello''], True)]"
    by simp
  show ?thesis
    by (rule exI [of _ s'], rule conjI, rule s' [THEN conjunct1], rule v)
qed

subsection \<open>Escape expansion\<close>

text \<open>
  On a table with one entry per key, \<^verbatim>\<open>expand_escape\<close> returns and changes nothing
  but the symbols table; in it every Local record is replaced by what the walk of
  ExpanderListener makes of it, and every External record is the one it was (\<open>walked\<close>
  over all keys of the table).
\<close>

lemma expand_escape_only_locals:
  "distinct (map fst (symbols_table s)) \<Longrightarrow>
   \<exists>t'. expand_escape L s = Inr (s\<lparr>symbols_table := t'\<rparr>) \<and>
        walked L (map fst (symbols_table s)) (symbols_table s) t'"
proof -
  assume d: "distinct (map fst (symbols_table s))"
  have "set (map fst (symbols_table s)) \<subseteq> set (map fst (symbols_table s))" by simp
  from expand_escape_loop_walked [OF d d this, of L] show ?thesis
    by (simp only: expand_escape_def)
qed

subsection \<open>The cycle breaker at a stall\<close>

text \<open>
  Let a sweep over the whole table leave \<open>unresolved\<close> unchanged and positive (state
  \<open>s1\<close>), in an engine whose counter is right and whose references table holds only keys
  with a record. Then the loop body is this one call of the cycle breaker:
  \<^verbatim>\<open>report_unresolved_vars\<close> appends exactly \<open>circular_errors s1\<close>, one
  CircularReferenceError for every key of the references table whose record is
  incomplete, with the line and column the table holds; \<^verbatim>\<open>resolve_unresolved_vars\<close>
  then leaves every Local record complete, touching no record that was complete or
  External; \<open>unresolved\<close> is 0 afterwards and \<^verbatim>\<open>resolve_vars\<close> returns that state.
\<close>

lemma cycle_breaker_on_stall:
  assumes "resolver_contract L" "engine_inv s" "unresolved s > 0" "references_defined s"
    and "sweep L (map fst (symbols_table s)) s = Inr s1" "unresolved s1 = unresolved s"
  shows "\<exists>s2. report_unresolved_vars s1 = Inr (s1\<lparr>errors := errors s1 @ circular_errors s1\<rparr>) \<and>
     resolve_unresolved_vars L (s1\<lparr>errors := errors s1 @ circular_errors s1\<rparr>) = Inr s2 \<and>
     resolve_body L s = Inr s2 \<and> resolve_vars L s = Some (Inr s2) \<and>
     errors s2 = errors s1 @ circular_errors s1 \<and> unresolved s2 = 0 \<and>
     all_locals_complete (symbols_table s2) \<and> resolution_frame s1 s2"
proof -
  from sweep_table_inv [OF assms(1,2)] assms(5)
  have inv1: "engine_inv s1" and fr: "resolution_frame s s1" by auto
  have rd: "references_defined s1"
    using references_defined_frame [OF fr] assms(4) by simp
  let ?s1 = "s1\<lparr>errors := errors s1 @ circular_errors s1\<rparr>"
  have rep: "report_unresolved_vars s1 = Inr ?s1"
    using rd by (rule report_unresolved_vars_ok)
  have "engine_inv ?s1" using inv1 by (simp add: engine_inv_errors)
  from resolve_unresolved_vars_inv [OF assms(1) this] obtain s2 where s2c:
    "resolve_unresolved_vars L ?s1 = Inr s2 \<and> engine_inv s2 \<and> unresolved s2 = 0 \<and>
        resolution_frame ?s1 s2 \<and> errors s2 = errors ?s1 \<and>
        all_locals_complete (symbols_table s2)" ..
  note s2 = s2c [THEN conjunct1] s2c [THEN conjunct2, THEN conjunct2, THEN conjunct1]
    s2c [THEN conjunct2, THEN conjunct2, THEN conjunct2, THEN conjunct1]
    s2c [THEN conjunct2, THEN conjunct2, THEN conjunct2, THEN conjunct2, THEN conjunct1]
    s2c [THEN conjunct2, THEN conjunct2, THEN conjunct2, THEN conjunct2, THEN conjunct2]
  have cb: "cycle_breaker L s1 = Inr s2"
    using rep s2(1) by (simp add: cycle_breaker_def)
  have body: "resolve_body L s = Inr s2"
    using assms(5,6) cb by (simp add: resolve_body_def)
  have "resolve_vars L s = resolve_vars L s2"
    using assms(3) body by (subst resolve_vars.simps) simp
  also have "\<dots> = Some (Inr s2)"
    using s2(2) by (subst resolve_vars.simps) simp
  finally have rv: "resolve_vars L s = Some (Inr s2)" .
  have e: "errors s2 = errors s1 @ circular_errors s1" using s2(4) by simp
  have f: "resolution_frame s1 s2" using s2(3) by (simp add: resolution_frame_def)
  show ?thesis
    by (intro exI [of _ s2] conjI) (rule rep s2(1) body rv e s2(2) s2(5) f)+
qed
subsection \<open>Tables without a cycle\<close>
























subsection \<open>Monotonic resolution\<close>










subsection \<open>What a parse keeps of the previous one\<close>

lemmas parse_eval =
  parse_def parse_dotenv_def parse_init_def errors_clear_def Parser_def
  define_symbol_def publish_def expand_escape_def register_env_def
  at_def local_record_def complete_def set_record_def spec_listeners_simps spec_expander_def
  spec_resolver_def spec_unresolved_def spec_references_def
  setenv_def env_set_def errors_flush_def interpolation_def parse_line_def
  resolve_vars.simps resolve_body_def cycle_breaker_def report_unresolved_vars_def
  resolve_unresolved_vars_def circular_reference_error_def Let_def

lemma parse_chain:
  "parse spec_listeners chain_source True True (Parser []) =
  Some (Inr \<lparr>unresolved = 0,
          symbols_table =
            [(''A'', \<lparr>origin = Local, rvalue = [Text ''hello''], pendingReferences = 0\<rparr>),
             (''B'', \<lparr>origin = Local, rvalue = [Text ''hello''], pendingReferences = 0\<rparr>)],
          references_table = [(''B'', \<lparr>line = 1, pos = 3\<rparr>)], errors = [],
          flushed = [[]],
          environ = [(''B'', [Text ''hello'']), (''A'', [Text ''hello''])],
          setenv_calls = [(''A'', [Text ''hello''], True), (''B'', [Text ''hello''], True)]\<rparr>)"
  by (simp add: parse_eval chain_source_def)

lemma parse_cycle:
  "parse spec_listeners cycle_source True True (Parser []) =
  Some (Inr \<lparr>unresolved = 0,
          symbols_table =
            [(''X'', \<lparr>origin = Local, rvalue = [], pendingReferences = 0\<rparr>),
             (''Y'', \<lparr>origin = Local, rvalue = [], pendingReferences = 0\<rparr>)],
          references_table =
            [(''Y'', \<lparr>line = 1, pos = 3\<rparr>), (''X'', \<lparr>line = 2, pos = 3\<rparr>)],
          errors = [CircularReferenceError ''Y'' 1 3, CircularReferenceError ''X'' 2 3],
          flushed = [[CircularReferenceError ''Y'' 1 3, CircularReferenceError ''X'' 2 3]],
          environ = [(''Y'', []), (''X'', [])],
          setenv_calls = [(''X'', [], True), (''Y'', [], True)]\<rparr>)"
  by (simp add: parse_eval cycle_source_def)

lemma parse_cycle_after_chain:
  "parse spec_listeners cycle_source True True
   \<lparr>unresolved = 0,
          symbols_table =
            [(''A'', \<lparr>origin = Local, rvalue = [Text ''hello''], pendingReferences = 0\<rparr>),
             (''B'', \<lparr>origin = Local, rvalue = [Text ''hello''], pendingReferences = 0\<rparr>)],
          references_table = [(''B'', \<lparr>line = 1, pos = 3\<rparr>)], errors = [],
          flushed = [[]],
          environ = [(''B'', [Text ''hello'']), (''A'', [Text ''hello''])],
          setenv_calls = [(''A'', [Text ''hello''], True), (''B'', [Text ''hello''], True)]\<rparr>
   = Some (Inl OutOfRange)"
  by (simp add: parse_eval cycle_source_def)

text \<open>
  Claim C3. At its start \<^verbatim>\<open>parse\<close> resets the counter, the symbols table and the
  diagnostics sink; the references table is not reset and is what the previous call left.
  A parser that has parsed the chain \<^verbatim>\<open>A=${B}\<close>, \<^verbatim>\<open>B=hello\<close> still holds the key
  \<^verbatim>\<open>B\<close> in its references table; when it then parses the cycle \<^verbatim>\<open>X=${Y}\<close>,
  \<^verbatim>\<open>Y=${X}\<close>, the cycle breaker looks \<^verbatim>\<open>B\<close> up, finds no record and the call ends
  in the exception of \<^verbatim>\<open>at\<close>, while a fresh parser parses the same cycle to the end:
  what a call does depends on the call before it.
\<close>

theorem parse_keeps_references_table:
  "unresolved (parse_init s) = 0 \<and> symbols_table (parse_init s) = [] \<and>
   errors (parse_init s) = [] \<and> references_table (parse_init s) = references_table s \<and>
   (\<exists>s1. parse spec_listeners chain_source True True (Parser []) = Some (Inr s1) \<and>
      references_table (parse_init s1) = [(''B'', \<lparr>line = 1, pos = 3\<rparr>)] \<and>
      parse spec_listeners cycle_source True True s1 = Some (Inl OutOfRange)) \<and>
   (\<exists>s2. parse spec_listeners cycle_source True True (Parser []) = Some (Inr s2))"
proof (intro conjI)
  show "unresolved (parse_init s) = 0" "symbols_table (parse_init s) = []"
    "errors (parse_init s) = []" "references_table (parse_init s) = references_table s"
    by (simp_all add: parse_init_def errors_clear_def)
  show "\<exists>s1. parse spec_listeners chain_source True True (Parser []) = Some (Inr s1) \<and>
      references_table (parse_init s1) = [(''B'', \<lparr>line = 1, pos = 3\<rparr>)] \<and>
      parse spec_listeners cycle_source True True s1 = Some (Inl OutOfRange)"
    by (intro exI conjI, rule parse_chain)
       (simp add: parse_init_def errors_clear_def, rule parse_cycle_after_chain)
  show "\<exists>s2. parse spec_listeners cycle_source True True (Parser []) = Some (Inr s2)"
    by (intro exI, rule parse_cycle)
qed

subsection \<open>What the references table of the call before does to a call\<close>

text \<open>
  Claim C2. At a stall the cycle breaker does not always do what it is there for. A
  parser that has parsed the chain \<^verbatim>\<open>A=${B}\<close>, \<^verbatim>\<open>B=hello\<close> and then scans the
  cycle \<^verbatim>\<open>X=${Y}\<close>, \<^verbatim>\<open>Y=${X}\<close> is in \<open>stalled_state\<close>: the counter is 2 and a
  sweep over the whole table changes nothing. There \<^verbatim>\<open>report_unresolved_vars\<close> ends
  in the exception of \<^verbatim>\<open>at\<close> on the key \<^verbatim>\<open>B\<close> of the call before, so the cycle
  breaker, the loop body and \<^verbatim>\<open>resolve_vars\<close> end in it too: no record is forced and
  the counter is never brought to 0. And where the call before has left a key that the
  new source defines (\<^verbatim>\<open>P=${Q}\<close>, \<^verbatim>\<open>Q=hi\<close>, then \<^verbatim>\<open>Q=${R}\<close>,
  \<^verbatim>\<open>R=${Q}\<close>), the CircularReferenceError for \<^verbatim>\<open>Q\<close> carries line 1, column 3,
  where the source before referred to it, and not line 2, column 3, where this source
  first does, as a new parser reports.
\<close>

theorem cycle_breaker_throws_on_reused_parser:
  "parse spec_listeners chain_source True True (Parser []) = Some (Inr reused_parser) \<and>
   parse_line spec_listeners (parse_dotenv cycle_source True (parse_init reused_parser))
     = Inr stalled_state \<and>
   unresolved stalled_state = 2 \<and>
   sweep spec_listeners (map fst (symbols_table stalled_state)) stalled_state
     = Inr stalled_state \<and>
   report_unresolved_vars stalled_state = Inl OutOfRange \<and>
   cycle_breaker spec_listeners stalled_state = Inl OutOfRange \<and>
   resolve_body spec_listeners stalled_state = Inl OutOfRange \<and>
   resolve_vars spec_listeners stalled_state = Some (Inl OutOfRange) \<and>
   parse spec_listeners early_source True True (Parser []) =
     Some (Inr \<lparr>unresolved = 0,
          symbols_table =
            [(''P'', \<lparr>origin = Local, rvalue = [Text ''hi''], pendingReferences = 0\<rparr>),
             (''Q'', \<lparr>origin = Local, rvalue = [Text ''hi''], pendingReferences = 0\<rparr>)],
          references_table = [(''Q'', \<lparr>line = 1, pos = 3\<rparr>)], errors = [],
          flushed = [[]],
          environ = [(''Q'', [Text ''hi'']), (''P'', [Text ''hi''])],
          setenv_calls = [(''P'', [Text ''hi''], True), (''Q'', [Text ''hi''], True)]\<rparr>) \<and>
   parse spec_listeners late_source True True
     \<lparr>unresolved = 0,
      symbols_table =
        [(''P'', \<lparr>origin = Local, rvalue = [Text ''hi''], pendingReferences = 0\<rparr>),
         (''Q'', \<lparr>origin = Local, rvalue = [Text ''hi''], pendingReferences = 0\<rparr>)],
      references_table = [(''Q'', \<lparr>line = 1, pos = 3\<rparr>)], errors = [],
      flushed = [[]],
      environ = [(''Q'', [Text ''hi'']), (''P'', [Text ''hi''])],
      setenv_calls = [(''P'', [Text ''hi''], True), (''Q'', [Text ''hi''], True)]\<rparr> =
     Some (Inr \<lparr>unresolved = 0,
          symbols_table =
            [(''Q'', \<lparr>origin = Local, rvalue = [], pendingReferences = 0\<rparr>),
             (''R'', \<lparr>origin = Local, rvalue = [], pendingReferences = 0\<rparr>)],
          references_table = [(''Q'', \<lparr>line = 1, pos = 3\<rparr>), (''R'', \<lparr>line = 1, pos = 3\<rparr>)],
          errors = [CircularReferenceError ''Q'' 1 3, CircularReferenceError ''R'' 1 3],
          flushed = [[], [CircularReferenceError ''Q'' 1 3, CircularReferenceError ''R'' 1 3]],
          environ = [(''R'', []), (''Q'', []), (''P'', [Text ''hi''])],
          setenv_calls =
            [(''P'', [Text ''hi''], True), (''Q'', [Text ''hi''], True),
             (''Q'', [], True), (''R'', [], True)]\<rparr>) \<and>
   parse spec_listeners late_source True True (Parser []) =
     Some (Inr \<lparr>unresolved = 0,
          symbols_table =
            [(''Q'', \<lparr>origin = Local, rvalue = [], pendingReferences = 0\<rparr>),
             (''R'', \<lparr>origin = Local, rvalue = [], pendingReferences = 0\<rparr>)],
          references_table = [(''R'', \<lparr>line = 1, pos = 3\<rparr>), (''Q'', \<lparr>line = 2, pos = 3\<rparr>)],
          errors = [CircularReferenceError ''R'' 1 3, CircularReferenceError ''Q'' 2 3],
          flushed = [[CircularReferenceError ''R'' 1 3, CircularReferenceError ''Q'' 2 3]],
          environ = [(''R'', []), (''Q'', [])],
          setenv_calls = [(''Q'', [], True), (''R'', [], True)]\<rparr>)"
proof (intro conjI)
  show "parse spec_listeners chain_source True True (Parser []) = Some (Inr reused_parser)"
    by (simp add: parse_eval chain_source_def reused_parser_def)
  show "parse_line spec_listeners (parse_dotenv cycle_source True (parse_init reused_parser))
     = Inr stalled_state"
    by (simp add: parse_eval cycle_source_def reused_parser_def stalled_state_def)
  show "unresolved stalled_state = 2" by (simp add: stalled_state_def)
  show "sweep spec_listeners (map fst (symbols_table stalled_state)) stalled_state
     = Inr stalled_state"
    by (simp add: parse_eval stalled_state_def)
  show "report_unresolved_vars stalled_state = Inl OutOfRange"
    by (simp add: parse_eval stalled_state_def)
  show "cycle_breaker spec_listeners stalled_state = Inl OutOfRange"
    by (simp add: parse_eval stalled_state_def)
  show "resolve_body spec_listeners stalled_state = Inl OutOfRange"
    by (simp add: parse_eval stalled_state_def)
  show "resolve_vars spec_listeners stalled_state = Some (Inl OutOfRange)"
    by (simp add: parse_eval stalled_state_def)
qed (simp_all add: parse_eval early_source_def late_source_def)

text \<open>
  Claim C7. The escape expander does not run in every call of \<^verbatim>\<open>parse\<close>. A new
  parser parses the cycle with \<^verbatim>\<open>E=a\n\<close> as the claim says: the resolution ends in
  \<open>forced_state\<close>, \<^verbatim>\<open>expand_escape\<close> then walks the three Local records, once, and
  the escape of \<^verbatim>\<open>E\<close> is expanded in the table that is published. In the parser that
  has parsed the chain \<^verbatim>\<open>A=${B}\<close>, \<^verbatim>\<open>B=hello\<close> before, the resolution of the same
  source ends in the exception of \<^verbatim>\<open>at\<close>, and so does the call: line 50 is not
  reached and \<^verbatim>\<open>expand_escape\<close> does not run at all.
\<close>

theorem expander_skipped_on_reused_parser:
  "parse spec_listeners chain_source True True (Parser []) = Some (Inr reused_parser) \<and>
   interpolation spec_listeners (parse_dotenv escape_cycle_source True (parse_init reused_parser))
     = Some (Inl OutOfRange) \<and>
   parse spec_listeners escape_cycle_source True True reused_parser = Some (Inl OutOfRange) \<and>
   interpolation spec_listeners (parse_dotenv escape_cycle_source True (parse_init (Parser [])))
     = Some (Inr forced_state) \<and>
   expand_escape spec_listeners forced_state =
     Inr (forced_state\<lparr>symbols_table :=
        [(''X'', \<lparr>origin = Local, rvalue = [], pendingReferences = 0\<rparr>),
         (''Y'', \<lparr>origin = Local, rvalue = [], pendingReferences = 0\<rparr>),
         (''E'', \<lparr>origin = Local, rvalue = [Text ''a'', Text ''n''], pendingReferences = 0\<rparr>)]\<rparr>) \<and>
   parse spec_listeners escape_cycle_source True True (Parser []) =
     Some (Inr \<lparr>unresolved = 0,
          symbols_table =
            [(''X'', \<lparr>origin = Local, rvalue = [], pendingReferences = 0\<rparr>),
             (''Y'', \<lparr>origin = Local, rvalue = [], pendingReferences = 0\<rparr>),
             (''E'', \<lparr>origin = Local, rvalue = [Text ''a'', Text ''n''], pendingReferences = 0\<rparr>)],
          references_table = [(''Y'', \<lparr>line = 1, pos = 3\<rparr>), (''X'', \<lparr>line = 2, pos = 3\<rparr>)],
          errors = [CircularReferenceError ''Y'' 1 3, CircularReferenceError ''X'' 2 3],
          flushed = [[CircularReferenceError ''Y'' 1 3, CircularReferenceError ''X'' 2 3]],
          environ = [(''E'', [Text ''a'', Text ''n'']), (''Y'', []), (''X'', [])],
          setenv_calls =
            [(''X'', [], True), (''Y'', [], True), (''E'', [Text ''a'', Text ''n''], True)]\<rparr>)"
proof (intro conjI)
  show "parse spec_listeners chain_source True True (Parser []) = Some (Inr reused_parser)"
    by (simp add: parse_eval chain_source_def reused_parser_def)
  show "expand_escape spec_listeners forced_state =
     Inr (forced_state\<lparr>symbols_table :=
        [(''X'', \<lparr>origin = Local, rvalue = [], pendingReferences = 0\<rparr>),
         (''Y'', \<lparr>origin = Local, rvalue = [], pendingReferences = 0\<rparr>),
         (''E'', \<lparr>origin = Local, rvalue = [Text ''a'', Text ''n''], pendingReferences = 0\<rparr>)]\<rparr>)"
    by (simp add: parse_eval forced_state_def)
qed (simp_all add: parse_eval escape_cycle_source_def reused_parser_def forced_state_def)

text \<open>
  Claim C9. A parse can be aborted with its diagnostics collected and not surfaced. The
  parser that has parsed the chain \<^verbatim>\<open>A=${B}\<close>, \<^verbatim>\<open>B=hello\<close> is given the cycle
  followed by \<^verbatim>\<open>Z=${W}\<close>: the scan collects the UndefinedVariableError for
  \<^verbatim>\<open>W\<close>, the resolution stalls and ends in the exception of \<^verbatim>\<open>at\<close>, and so does
  the call, before \<^verbatim>\<open>expand_escape\<close>, \<^verbatim>\<open>register_env\<close> and
  \<^verbatim>\<open>errors::flush\<close>. A new parser parses the same source to the end and flushes
  the three diagnostics as one batch.
\<close>

theorem parse_aborts_on_reused_parser:
  "parse spec_listeners chain_source True True (Parser []) = Some (Inr reused_parser) \<and>
   parse_line spec_listeners (parse_dotenv undefined_cycle_source True (parse_init reused_parser)) =
     Inr \<lparr>unresolved = 2,
          symbols_table =
            [(''X'', \<lparr>origin = Local, rvalue = [Reference ''Y'' 1 3], pendingReferences = 1\<rparr>),
             (''Y'', \<lparr>origin = Local, rvalue = [Reference ''X'' 2 3], pendingReferences = 1\<rparr>),
             (''Z'', \<lparr>origin = Local, rvalue = [], pendingReferences = 0\<rparr>)],
          references_table =
            [(''B'', \<lparr>line = 1, pos = 3\<rparr>), (''Y'', \<lparr>line = 1, pos = 3\<rparr>),
             (''X'', \<lparr>line = 2, pos = 3\<rparr>)],
          errors = [UndefinedVariableError ''W'' 3 3], flushed = [[]],
          environ = [(''B'', [Text ''hello'']), (''A'', [Text ''hello''])],
          setenv_calls = [(''A'', [Text ''hello''], True), (''B'', [Text ''hello''], True)]\<rparr> \<and>
   interpolation spec_listeners
       (parse_dotenv undefined_cycle_source True (parse_init reused_parser))
     = Some (Inl OutOfRange) \<and>
   parse spec_listeners undefined_cycle_source True True reused_parser = Some (Inl OutOfRange) \<and>
   parse spec_listeners undefined_cycle_source True True (Parser []) =
     Some (Inr \<lparr>unresolved = 0,
          symbols_table =
            [(''X'', \<lparr>origin = Local, rvalue = [], pendingReferences = 0\<rparr>),
             (''Y'', \<lparr>origin = Local, rvalue = [], pendingReferences = 0\<rparr>),
             (''Z'', \<lparr>origin = Local, rvalue = [], pendingReferences = 0\<rparr>)],
          references_table = [(''Y'', \<lparr>line = 1, pos = 3\<rparr>), (''X'', \<lparr>line = 2, pos = 3\<rparr>)],
          errors =
            [UndefinedVariableError ''W'' 3 3, CircularReferenceError ''Y'' 1 3,
             CircularReferenceError ''X'' 2 3],
          flushed =
            [[UndefinedVariableError ''W'' 3 3, CircularReferenceError ''Y'' 1 3,
              CircularReferenceError ''X'' 2 3]],
          environ = [(''Z'', []), (''Y'', []), (''X'', [])],
          setenv_calls = [(''X'', [], True), (''Y'', [], True), (''Z'', [], True)]\<rparr>)"
proof (intro conjI)
  show "parse spec_listeners chain_source True True (Parser []) = Some (Inr reused_parser)"
    by (simp add: parse_eval chain_source_def reused_parser_def)
qed (simp_all add: parse_eval undefined_cycle_source_def reused_parser_def)
end
